theory Spec2Isabelle
  imports Main "HOL-Library.AList" "HOL-Library.Multiset" "HOL-Library.Sublist"
begin

section \<open>The build script \<open>build.py\<close>: platform, environment and options\<close>

text \<open>
  The script reads three things from its surroundings when the module is loaded:
  \<open>sys.platform\<close>, the process environment \<open>os.environ\<close> and its own location.
  They are explicit arguments here. Every \<open>raise\<close> of the script and of the
  library calls it makes is a value of \<open>error\<close>.
\<close>

datatype platform = Win | Osx | Linux

datatype error =
    UnsupportedPlatform string
  | KeyError string
  | TypeError string
  | OSError string
  | CalledProcessError "string list"
  | ValueError string
  | UnicodeEncodeError string
  | StructError string

type_synonym environ = "string \<rightharpoonup> string"

text \<open>\<open>str.startswith\<close>.\<close>

definition startswith :: "string \<Rightarrow> string \<Rightarrow> bool" where
  "startswith s p = (take (length p) s = p)"

text \<open>\<open>get_platform\<close> (lines 12 to 20), as a function of \<open>sys.platform\<close>.\<close>

definition get_platform :: "string \<Rightarrow> error + platform" where
  "get_platform sys_platform =
     (if startswith sys_platform ''win'' then Inr Win
      else if sys_platform = ''darwin'' then Inr Osx
      else if startswith sys_platform ''linux'' then Inr Linux
      else Inl (UnsupportedPlatform (''Unsupported platform '' @ sys_platform)))"

text \<open>\<open>os.environ.get(key, default)\<close>.\<close>

definition environ_get :: "environ \<Rightarrow> string \<Rightarrow> string \<Rightarrow> string" where
  "environ_get env key dflt = (case env key of None \<Rightarrow> dflt | Some v \<Rightarrow> v)"

text \<open>Line 25: \<open>IS_BUILD_MACHINE = os.environ.get('CI', '') == 'true'\<close>.\<close>

definition IS_BUILD_MACHINE :: "environ \<Rightarrow> bool" where
  "IS_BUILD_MACHINE env = (environ_get env ''CI'' [] = ''true'')"

subsection \<open>Paths\<close>

text \<open>
  \<open>os.path\<close> is \<open>posixpath\<close> on macOS and Linux and \<open>ntpath\<close> on Windows. The
  functions of \<open>os.path\<close> that the script and the library calls it makes rely on are the
  fields of a record; \<open>posixpath\<close> and \<open>ntpath\<close> below are its two instances, written
  after the Python standard library. \<open>joinl\<close> is \<open>os.path.join(path, *paths)\<close>.

  A string is a list of 8-bit characters. A path or a file name is here the byte string
  \<open>os.fsencode\<close> gives for it, in UTF-8: an ASCII character is one character of the Python
  string, and the separators, the dot and the colon, which are all the path functions look
  for, are ASCII.
\<close>

record ospath =
  joinl :: "string \<Rightarrow> string list \<Rightarrow> string"
  normpath :: "string \<Rightarrow> string"
  splitext :: "string \<Rightarrow> string \<times> string"
  splitdrive :: "string \<Rightarrow> string \<times> string"
  sep :: char
  altsep :: "char option"

text \<open>\<open>os.path.join\<close> with two, three and four arguments.\<close>

definition join :: "ospath \<Rightarrow> string \<Rightarrow> string \<Rightarrow> string" where
  "join P a b = joinl P a [b]"

definition join3 :: "ospath \<Rightarrow> string \<Rightarrow> string \<Rightarrow> string \<Rightarrow> string" where
  "join3 P a b c = joinl P a [b, c]"

definition join4 :: "ospath \<Rightarrow> string \<Rightarrow> string \<Rightarrow> string \<Rightarrow> string \<Rightarrow> string" where
  "join4 P a b c d = joinl P a [b, c, d]"

text \<open>
  \<open>posixpath.join\<close>: one round of its loop over the arguments after the first, which
  is the function for two arguments.
\<close>

definition posix_join :: "string \<Rightarrow> string \<Rightarrow> string" where
  "posix_join a b =
     (if startswith b ''/'' then b
      else if a = [] \<or> last a = CHR ''/'' then a @ b
      else a @ ''/'' @ b)"

text \<open>\<open>str.split\<close> at one character, and \<open>str.join\<close>.\<close>

fun split_on :: "char \<Rightarrow> string \<Rightarrow> string list" where
  "split_on c [] = [[]]"
| "split_on c (x # xs) =
     (if x = c then [] # split_on c xs
      else (case split_on c xs of
              [] \<Rightarrow> [[x]]
            | w # ws \<Rightarrow> (x # w) # ws))"

fun str_join :: "string \<Rightarrow> string list \<Rightarrow> string" where
  "str_join s [] = []"
| "str_join s [x] = x"
| "str_join s (x # y # ys) = x @ s @ str_join s (y # ys)"

text \<open>
  \<open>posixpath.normpath\<close>: the body of its loop over the components, and the function.
\<close>

definition norm_step :: "nat \<Rightarrow> string list \<Rightarrow> string \<Rightarrow> string list" where
  "norm_step initial_slashes new_comps cmp =
     (if cmp = [] \<or> cmp = ''.'' then new_comps
      else if cmp \<noteq> ''..'' \<or> (initial_slashes = 0 \<and> new_comps = [])
              \<or> (new_comps \<noteq> [] \<and> last new_comps = ''..'')
           then new_comps @ [cmp]
      else if new_comps \<noteq> [] then butlast new_comps
      else new_comps)"

definition posix_normpath :: "string \<Rightarrow> string" where
  "posix_normpath path =
     (if path = [] then ''.''
      else
        let initial_slashes =
              (if startswith path ''/''
               then (if startswith path ''//'' \<and> \<not> startswith path ''///'' then 2 else 1)
               else 0);
            comps = foldl (norm_step initial_slashes) [] (split_on CHR ''/'' path);
            p = replicate initial_slashes CHR ''/'' @ str_join ''/'' comps
        in if p = [] then ''.'' else p)"

text \<open>\<open>str.rfind\<close> of one character: the last index, or \<open>-1\<close>.\<close>

definition rfind :: "char \<Rightarrow> string \<Rightarrow> int" where
  "rfind c s =
     (if c \<in> set s
      then int (length s) - 1 - int (length (takeWhile (\<lambda>x. x \<noteq> c) (rev s)))
      else - 1)"

text \<open>
  \<open>posixpath.splitext\<close>: the extension starts at the last dot, unless that dot comes
  before the last slash or only dots lie between the last slash and it.
\<close>

definition posix_splitext :: "string \<Rightarrow> string \<times> string" where
  "posix_splitext p =
     (let sepIndex = rfind CHR ''/'' p;
          dotIndex = rfind CHR ''.'' p
      in if dotIndex > sepIndex
            \<and> list_ex (\<lambda>c. c \<noteq> CHR ''.'')
                 (take (nat (dotIndex - (sepIndex + 1))) (drop (nat (sepIndex + 1)) p))
         then (take (nat dotIndex) p, drop (nat dotIndex) p)
         else (p, []))"

definition posixpath :: ospath where
  "posixpath =
     \<lparr>joinl = foldl posix_join, normpath = posix_normpath, splitext = posix_splitext,
      splitdrive = (\<lambda>p. ([], p)), sep = CHR ''/'', altsep = None\<rparr>"

subsection \<open>Paths on Windows\<close>

text \<open>
  \<open>ntpath\<close>, after \<open>ntpath.py\<close>. The backslash, and the two separators.
\<close>

definition backslash :: char where
  "backslash = CHR 0x5C"

definition nt_seps :: "char set" where
  "nt_seps = {backslash, CHR ''/''}"

text \<open>
  \<open>str.replace\<close> of one character by another; \<open>str.find(c, start)\<close> for one
  character, the first index from \<open>start\<close> on, or \<open>-1\<close>; \<open>str.upper\<close> and
  \<open>str.lower\<close> on the letters of ASCII. \<open>ntpath\<close> uses the last two to compare
  the start of a path with the prefix of a UNC device path, which is ASCII, and to
  compare two drives.
\<close>

definition replace :: "char \<Rightarrow> char \<Rightarrow> string \<Rightarrow> string" where
  "replace a b s = map (\<lambda>c. if c = a then b else c) s"

definition find_from :: "char \<Rightarrow> nat \<Rightarrow> string \<Rightarrow> int" where
  "find_from c start s =
     (if c \<in> set (drop start s)
      then int start + int (length (takeWhile (\<lambda>x. x \<noteq> c) (drop start s)))
      else - 1)"

definition upper :: "string \<Rightarrow> string" where
  "upper s =
     map (\<lambda>c. if 97 \<le> (of_char c :: nat) \<and> (of_char c :: nat) \<le> 122
               then char_of ((of_char c :: nat) - 32) else c) s"

definition lower :: "string \<Rightarrow> string" where
  "lower s =
     map (\<lambda>c. if 65 \<le> (of_char c :: nat) \<and> (of_char c :: nat) \<le> 90
               then char_of ((of_char c :: nat) + 32) else c) s"

text \<open>
  \<open>ntpath.splitdrive\<close>: the drive is a UNC or device prefix up to the fourth
  separator, or a letter and a colon, or empty.
\<close>

definition nt_splitdrive :: "string \<Rightarrow> string \<times> string" where
  "nt_splitdrive p =
     (if 2 \<le> length p
      then
        let normp = replace CHR ''/'' backslash p
        in if take 2 normp = [backslash, backslash]
           then
             let start = (if upper (take 8 normp)
                              = [backslash, backslash, CHR ''?'', backslash] @ ''UNC'' @ [backslash]
                          then 8 else 2);
                 index = find_from backslash start normp
             in if index = - 1 then (p, [])
                else
                  let index2 = find_from backslash (nat index + 1) normp
                  in if index2 = - 1 then (p, [])
                     else (take (nat index2) p, drop (nat index2) p)
           else if take 1 (drop 1 normp) = '':'' then (take 2 p, drop 2 p)
           else ([], p)
      else ([], p))"

text \<open>
  \<open>ntpath.join\<close>: one round of its loop over the arguments after the first, on the
  pair of \<open>result_drive\<close> and \<open>result_path\<close>, and the function.
\<close>

definition nt_join_step :: "string \<times> string \<Rightarrow> string \<Rightarrow> string \<times> string" where
  "nt_join_step acc p =
     (let result_drive = fst acc;
          result_path = snd acc;
          p_drive = fst (nt_splitdrive p);
          p_path = snd (nt_splitdrive p)
      in if p_path \<noteq> [] \<and> hd p_path \<in> nt_seps
         then (if p_drive \<noteq> [] \<or> result_drive = [] then p_drive else result_drive, p_path)
         else if p_drive \<noteq> [] \<and> p_drive \<noteq> result_drive \<and> lower p_drive \<noteq> lower result_drive
         then (p_drive, p_path)
         else (if p_drive \<noteq> [] \<and> p_drive \<noteq> result_drive then p_drive else result_drive,
               (if result_path \<noteq> [] \<and> last result_path \<notin> nt_seps
                then result_path @ [backslash] else result_path) @ p_path))"

definition nt_joinl :: "string \<Rightarrow> string list \<Rightarrow> string" where
  "nt_joinl path paths =
     (let r = foldl nt_join_step (nt_splitdrive path) paths;
          result_drive = fst r;
          result_path = snd r
      in if result_path \<noteq> [] \<and> hd result_path \<notin> nt_seps
            \<and> result_drive \<noteq> [] \<and> last result_drive \<noteq> CHR '':''
         then result_drive @ [backslash] @ result_path
         else result_drive @ result_path)"

text \<open>
  \<open>ntpath.normpath\<close>, the implementation in Python. Its loop runs an index \<open>i\<close>
  through the list \<open>comps\<close>, deleting in place; \<open>comps[:i]\<close> is the list built up
  here, and \<open>del comps[i-1:i+1]\<close> drops its last element.
\<close>

definition nt_norm_step :: "string \<Rightarrow> string list \<Rightarrow> string \<Rightarrow> string list" where
  "nt_norm_step pre comps cmp =
     (if cmp = [] \<or> cmp = ''.'' then comps
      else if cmp = ''..''
      then (if comps \<noteq> [] \<and> last comps \<noteq> ''..'' then butlast comps
            else if comps = [] \<and> pre \<noteq> [] \<and> last pre = backslash then comps
            else comps @ [cmp])
      else comps @ [cmp])"

definition nt_normpath :: "string \<Rightarrow> string" where
  "nt_normpath path0 =
     (let path1 = replace CHR ''/'' backslash path0;
          prefix0 = fst (nt_splitdrive path1);
          path2 = snd (nt_splitdrive path1);
          pre = (if startswith path2 [backslash] then prefix0 @ [backslash] else prefix0);
          path = (if startswith path2 [backslash]
                  then dropWhile (\<lambda>c. c = backslash) path2 else path2);
          comps = foldl (nt_norm_step pre) [] (split_on backslash path)
      in pre @ str_join [backslash] (if pre = [] \<and> comps = [] then [''.''] else comps))"

text \<open>\<open>ntpath.splitext\<close>: as on POSIX, with the last of either separator.\<close>

definition nt_splitext :: "string \<Rightarrow> string \<times> string" where
  "nt_splitext p =
     (let sepIndex = max (rfind backslash p) (rfind CHR ''/'' p);
          dotIndex = rfind CHR ''.'' p
      in if dotIndex > sepIndex
            \<and> list_ex (\<lambda>c. c \<noteq> CHR ''.'')
                 (take (nat (dotIndex - (sepIndex + 1))) (drop (nat (sepIndex + 1)) p))
         then (take (nat dotIndex) p, drop (nat dotIndex) p)
         else (p, []))"

definition ntpath :: ospath where
  "ntpath =
     \<lparr>joinl = nt_joinl, normpath = nt_normpath, splitext = nt_splitext,
      splitdrive = nt_splitdrive, sep = backslash, altsep = Some CHR ''/''\<rparr>"

text \<open>The module \<open>os.path\<close> of each platform.\<close>

fun os_path :: "platform \<Rightarrow> ospath" where
  "os_path Win = ntpath"
| "os_path Osx = posixpath"
| "os_path Linux = posixpath"

subsection \<open>Build options and the configure command\<close>

text \<open>
  The values of an option dictionary are Python booleans or strings. A dictionary is an
  association list in insertion order (the order in which \<open>for key in options\<close>
  visits it); \<open>d[k] = v\<close> is \<open>AList.update\<close>, which replaces a present key in place
  and appends an absent one.
\<close>

datatype optval = Bool bool | Str string

type_synonym options = "(string \<times> optval) list"

text \<open>Lines 135 to 138: one option rendered as a \<open>-D\<close> token.\<close>

fun render_val :: "optval \<Rightarrow> string" where
  "render_val (Bool b) = (if b then ''ON'' else ''OFF'')"
| "render_val (Str s) = s"

definition render_option :: "string \<times> optval \<Rightarrow> string" where
  "render_option kv = ''-D'' @ fst kv @ ''='' @ render_val (snd kv)"

text \<open>
  Lines 127 to 138: the argument list of the configure step. \<open>if generator:\<close> is false
  for \<open>None\<close> and for the empty string.
\<close>

definition initial_cmake :: "ospath \<Rightarrow> string \<Rightarrow> string \<Rightarrow> string option \<Rightarrow> options \<Rightarrow> string list" where
  "initial_cmake P script_path build_name generator opts =
     [''cmake'', script_path,
      ''-DCMAKE_INSTALL_PREFIX='' @ join3 P ''..'' ''install'' build_name]
     @ (case generator of
          None \<Rightarrow> []
        | Some g \<Rightarrow> if g = [] then [] else [''-G'', g])
     @ map render_option opts"

subsection \<open>The variant matrix of \<open>libs\<close>\<close>

text \<open>One call \<open>build_lib(build_name, generator, options, just_release)\<close>.\<close>

record variant =
  build_name :: string
  generator :: "string option"
  options :: options
  just_release :: bool

text \<open>Lines 219 to 221: with neither link mode asked for, both are built.\<close>

definition link_modes :: "bool \<Rightarrow> bool \<Rightarrow> bool \<times> bool" where
  "link_modes static shared = (if \<not> (static \<or> shared) then (True, True) else (static, shared))"

text \<open>Lines 223 to 231: the two option dictionaries.\<close>

definition static_options :: "bool \<Rightarrow> bool \<Rightarrow> options" where
  "static_options build_machine skip_formatter =
     (if skip_formatter \<or> build_machine
      then AList.update ''CLANG_FORMAT_SUFFIX'' (Str ''none'') []
      else [])"

definition dynamic_options :: "bool \<Rightarrow> bool \<Rightarrow> options" where
  "dynamic_options build_machine skip_formatter =
     (if skip_formatter \<or> build_machine
      then AList.update ''CLANG_FORMAT_SUFFIX'' (Str ''none'')
             [(''BUILD_SHARED_LIBS'', Bool True), (''USE_STATIC_CRT'', Bool True)]
      else [(''BUILD_SHARED_LIBS'', Bool True), (''USE_STATIC_CRT'', Bool True)])"

definition generator32 :: string where
  "generator32 = ''Visual Studio 14 2015''"

definition generator64 :: string where
  "generator64 = ''Visual Studio 14 2015 Win64''"

text \<open>
  Lines 219 to 254 of \<open>libs\<close>: the calls of \<open>build_lib\<close> it makes, in program order,
  each as the tuple of its arguments. The globals \<open>PLATFORM\<close> and
  \<open>IS_BUILD_MACHINE\<close> are the first two arguments. No argument of a call depends on
  the outcome of an earlier call, so \<open>libs\<close> is this list run from left to right.
\<close>

definition libs_matrix :: "platform \<Rightarrow> bool \<Rightarrow> bool \<Rightarrow> bool \<Rightarrow> bool \<Rightarrow> bool \<Rightarrow> variant list" where
  "libs_matrix pf build_machine static0 shared0 skip_formatter just_release0 =
     (let static = fst (link_modes static0 shared0);
          shared = snd (link_modes static0 shared0);
          sopts = static_options build_machine skip_formatter;
          dopts = dynamic_options build_machine skip_formatter;
          jr = (if build_machine then True else just_release0);
          mk = (\<lambda>n g opts. \<lparr>build_name = n, generator = g, options = opts, just_release = jr\<rparr>)
      in case pf of
           Win \<Rightarrow>
             (if static then [mk ''win32-static'' (Some generator32) sopts,
                              mk ''win64-static'' (Some generator64) sopts] else [])
             @ (if shared then [mk ''win32-dynamic'' (Some generator32) dopts,
                                mk ''win64-dynamic'' (Some generator64) dopts] else [])
         | Osx \<Rightarrow>
             (if static then [mk ''osx-static'' None sopts] else [])
             @ (if shared then [mk ''osx-dynamic'' None dopts] else [])
         | Linux \<Rightarrow>
             (if static then [mk ''linux-static'' None sopts] else [])
             @ (if shared then [mk ''linux-dynamic'' None dopts] else []))"

text \<open>\<open>str.endswith\<close>.\<close>

definition endswith :: "string \<Rightarrow> string \<Rightarrow> bool" where
  "endswith s p = (length p \<le> length s \<and> drop (length s - length p) s = p)"

text \<open>
  What tells one variant from another: the name, the generator and the option dictionary
  passed to \<open>build_lib\<close>.
\<close>

definition variant_shape :: "variant \<Rightarrow> string \<times> string option \<times> options" where
  "variant_shape v = (build_name v, generator v, options v)"

section \<open>The stages: effects, failures and the trace\<close>

subsection \<open>The world outside the script\<close>

text \<open>
  A directory as \<open>os.walk\<close> sees it: its entries in the order \<open>os.scandir\<close> gives
  them, each a directory with its own entries or a regular file that can be read, with
  its bytes and the year of its modification time, which is
  \<open>time.localtime(os.stat(path).st_mtime)[0]\<close>.
\<close>

datatype node = File string string int | Dir string "node list"

fun node_name :: "node \<Rightarrow> string" where
  "node_name (File n b y) = n"
| "node_name (Dir n es) = n"

text \<open>
  The file system, the external tools and the zip library are not code of the script.
  Their state is a value of an arbitrary type \<open>'w\<close>, and what they do is the record
  \<open>os\<close>: each field is one library call of the script, given the state it runs in,
  returning the new state or the error it raises.
  \<^item> \<open>os_isdir\<close>, \<open>os_makedirs\<close>, \<open>os_getcwd\<close>, \<open>os_chdir\<close>: the functions of
    \<open>os\<close> and \<open>os.path\<close> with these names;
  \<^item> \<open>os_rmtree\<close>: \<open>shutil.rmtree(path, ignore_errors=True)\<close>, which raises nothing;
  \<^item> \<open>os_check_call\<close>: \<open>subprocess.check_call\<close>, which raises when the command
    exits with a status other than 0;
  \<^item> \<open>os_scandir\<close>: the directory tree below a path, \<open>None\<close> when the path is no
    readable directory;
  \<^item> \<open>os_zip_create\<close>: \<open>zipfile.ZipFile(path, 'w', ZIP_DEFLATED)\<close>;
  \<^item> \<open>os_expanduser\<close>: \<open>os.path.expanduser\<close>.
\<close>

record 'w os =
  os_isdir :: "'w \<Rightarrow> string \<Rightarrow> bool"
  os_makedirs :: "'w \<Rightarrow> string \<Rightarrow> error + 'w"
  os_rmtree :: "'w \<Rightarrow> string \<Rightarrow> 'w"
  os_getcwd :: "'w \<Rightarrow> string"
  os_chdir :: "'w \<Rightarrow> string \<Rightarrow> error + 'w"
  os_check_call :: "'w \<Rightarrow> string list \<Rightarrow> error + 'w"
  os_scandir :: "'w \<Rightarrow> string \<Rightarrow> node list option"
  os_zip_create :: "'w \<Rightarrow> string \<Rightarrow> error + 'w"
  os_expanduser :: "string \<Rightarrow> string"

text \<open>
  What a run leaves behind: the lines it printed (\<open>click.echo\<close>, \<open>click.secho\<close>), the
  commands it handed to \<open>subprocess.check_call\<close> and the subcommands it entered through
  \<open>ctx.invoke\<close>, in order; and the archive it wrote, as the path of the zip file and
  its entries (name in the archive, bytes).
\<close>

datatype event = Echo string | Call "string list" | Invoke string

record 'w state =
  world :: 'w
  trace :: "event list"
  zipfile :: "string \<times> (string \<times> string) list"

text \<open>
  A statement of the script maps a state to the state it leaves and the exception it
  raised, if any. An exception is caught nowhere in the script, so it ends the run:
  \<open>run_all\<close> runs statements in sequence up to the first that raises.
\<close>

type_synonym 'w prog = "'w state \<Rightarrow> error option \<times> 'w state"

definition skip :: "'w prog" where
  "skip s = (None, s)"

fun run_all :: "'w prog list \<Rightarrow> 'w prog" where
  "run_all [] s = (None, s)"
| "run_all (p # ps) s =
     (case p s of
        (None, s') \<Rightarrow> run_all ps s'
      | (Some e, s') \<Rightarrow> (Some e, s'))"

definition echo :: "string \<Rightarrow> 'w prog" where
  "echo msg s = (None, s\<lparr>trace := trace s @ [Echo msg]\<rparr>)"

text \<open>A library call that changes the world or raises.\<close>

definition lift_os :: "('w \<Rightarrow> error + 'w) \<Rightarrow> 'w prog" where
  "lift_os f s =
     (case f (world s) of
        Inl e \<Rightarrow> (Some e, s)
      | Inr w \<Rightarrow> (None, s\<lparr>world := w\<rparr>))"

text \<open>\<open>subprocess.check_call(argv)\<close>: the command is on the trace whether it fails or not.\<close>

definition check_call :: "'w os \<Rightarrow> string list \<Rightarrow> 'w prog" where
  "check_call os argv s =
     lift_os (\<lambda>w. os_check_call os w argv) (s\<lparr>trace := trace s @ [Call argv]\<rparr>)"

text \<open>\<open>ctx.invoke(command)\<close>.\<close>

definition invoke :: "string \<Rightarrow> 'w prog \<Rightarrow> 'w prog" where
  "invoke name p s = p (s\<lparr>trace := trace s @ [Invoke name]\<rparr>)"

text \<open>
  \<open>cd\<close> (lines 39 to 47) around a body. The directory is not restored when the body
  raises: the \<open>yield\<close> is not inside a \<open>try\<close>.
\<close>

definition cd :: "'w os \<Rightarrow> string \<Rightarrow> 'w prog \<Rightarrow> 'w prog" where
  "cd os new_dir body s =
     (if new_dir \<noteq> []
      then run_all [lift_os (\<lambda>w. os_chdir os w new_dir), body,
                    lift_os (\<lambda>w. os_chdir os w (os_getcwd os (world s)))] s
      else body s)"

text \<open>\<open>mkdir_p\<close> (lines 50 to 54).\<close>

definition mkdir_p :: "'w os \<Rightarrow> string \<Rightarrow> 'w prog" where
  "mkdir_p os path s =
     (if \<not> os_isdir os (world s) path
      then run_all [echo (''Making '' @ path), lift_os (\<lambda>w. os_makedirs os w path)] s
      else (None, s))"

subsection \<open>Module globals\<close>

text \<open>
  Lines 23 to 27. \<open>IS_BUILD_MACHINE\<close> is computed from \<open>environ\<close>, which the script
  never changes.
\<close>

record config =
  SCRIPT_PATH :: string
  PLATFORM :: platform
  environ :: environ

definition INSTALL_ROOT :: "ospath \<Rightarrow> config \<Rightarrow> string" where
  "INSTALL_ROOT P cfg = join3 P (SCRIPT_PATH cfg) ''builds'' ''install''"

text \<open>The string \<open>get_platform\<close> returns.\<close>

fun platform_name :: "platform \<Rightarrow> string" where
  "platform_name Win = ''win''"
| "platform_name Osx = ''osx''"
| "platform_name Linux = ''linux''"

text \<open>
  \<open>get_signtool\<close> (lines 30 to 36): \<open>os.environ['WindowsSdkDir']\<close> raises
  \<open>KeyError\<close> when the variable is not set; on Linux the function returns \<open>None\<close>.
\<close>

definition get_signtool :: "ospath \<Rightarrow> config \<Rightarrow> error + string option" where
  "get_signtool P cfg =
     (case PLATFORM cfg of
        Win \<Rightarrow>
          (case environ cfg ''WindowsSdkDir'' of
             None \<Rightarrow> Inl (KeyError ''WindowsSdkDir'')
           | Some sdk_dir \<Rightarrow> Inr (Some (join4 P sdk_dir ''bin'' ''x86'' ''signtool.exe'')))
      | Osx \<Rightarrow> Inr (Some ''/usr/bin/codesign'')
      | Linux \<Rightarrow> Inr None)"

subsection \<open>\<open>build_lib\<close> and \<open>libs\<close>\<close>

definition debug_build :: "string list" where
  "debug_build = [''cmake'', ''--build'', ''.'', ''--config'', ''Debug'']"

definition release_install :: "string list" where
  "release_install =
     [''cmake'', ''--build'', ''.'', ''--config'', ''Release'', ''--target'', ''install'']"

text \<open>\<open>build_lib\<close> (lines 120 to 143).\<close>

definition build_lib ::
  "ospath \<Rightarrow> 'w os \<Rightarrow> config \<Rightarrow> string \<Rightarrow> string option \<Rightarrow> options \<Rightarrow> bool \<Rightarrow> 'w prog" where
  "build_lib P os cfg name gen opts jr =
     (let build_path = join3 P (SCRIPT_PATH cfg) ''builds'' name;
          install_path = join P (INSTALL_ROOT P cfg) name
      in run_all
           [mkdir_p os build_path,
            mkdir_p os install_path,
            cd os build_path
              (run_all
                 [echo (''--- Building '' @ name),
                  check_call os (initial_cmake P (SCRIPT_PATH cfg) name gen opts),
                  (if \<not> jr then check_call os debug_build else skip),
                  check_call os release_install])])"

text \<open>\<open>libs\<close> (lines 212 to 254); the calls of lines 236 to 254 are \<open>libs_matrix\<close>.\<close>

definition libs ::
  "ospath \<Rightarrow> 'w os \<Rightarrow> config \<Rightarrow> bool \<Rightarrow> bool \<Rightarrow> bool \<Rightarrow> bool \<Rightarrow> bool \<Rightarrow> 'w prog" where
  "libs P os cfg clean static shared skip_formatter jr =
     run_all
       [(if clean then (\<lambda>s. (None, s\<lparr>world := os_rmtree os (world s) ''builds''\<rparr>)) else skip),
        mkdir_p os ''builds'',
        run_all
          (map (\<lambda>v. build_lib P os cfg (build_name v) (generator v) (options v) (just_release v))
             (libs_matrix (PLATFORM cfg) (IS_BUILD_MACHINE (environ cfg))
                static shared skip_formatter jr))]"

subsection \<open>Walking the install tree\<close>

fun filenames :: "node list \<Rightarrow> string list" where
  "filenames [] = []"
| "filenames (File n b y # es) = n # filenames es"
| "filenames (Dir n sub # es) = filenames es"

fun dirnames :: "node list \<Rightarrow> string list" where
  "dirnames [] = []"
| "dirnames (File n b y # es) = dirnames es"
| "dirnames (Dir n sub # es) = n # dirnames es"

text \<open>
  \<open>os.walk(top)\<close>, top down: the triple of \<open>top\<close> itself, then the walks of its
  subdirectories \<open>os.path.join(top, dirname)\<close> in order.
\<close>

fun walk :: "ospath \<Rightarrow> string \<Rightarrow> node list \<Rightarrow> (string \<times> string list \<times> string list) list"
  and walk_dirs :: "ospath \<Rightarrow> string \<Rightarrow> node list \<Rightarrow> (string \<times> string list \<times> string list) list"
where
  "walk P dir es = (dir, dirnames es, filenames es) # walk_dirs P dir es"
| "walk_dirs P dir [] = []"
| "walk_dirs P dir (File n b y # es) = walk_dirs P dir es"
| "walk_dirs P dir (Dir n sub # es) = walk P (join P dir n) sub @ walk_dirs P dir es"

text \<open>\<open>os.walk\<close> of a path that is no directory yields nothing.\<close>

definition os_walk :: "ospath \<Rightarrow> 'w os \<Rightarrow> 'w \<Rightarrow> string \<Rightarrow> (string \<times> string list \<times> string list) list" where
  "os_walk P os w dir = (case os_scandir os w dir of None \<Rightarrow> [] | Some es \<Rightarrow> walk P dir es)"

subsection \<open>\<open>sign\<close>\<close>

definition signable_extensions :: "platform \<Rightarrow> string set" where
  "signable_extensions pf = (case pf of Win \<Rightarrow> {''.dll''} | Osx \<Rightarrow> {''.dylib''} | Linux \<Rightarrow> {})"

text \<open>
  Lines 168 to 192: the command without the file, \<open>None\<close> on a platform the script does
  not sign on.
\<close>

definition sign_command_base :: "'w os \<Rightarrow> platform \<Rightarrow> string \<Rightarrow> string list option" where
  "sign_command_base os pf tool =
     (case pf of
        Win \<Rightarrow>
          Some [tool, ''sign'', ''/n'', ''Hammer & Chisel Inc.'', ''/a'',
                ''/tr'', ''http://timestamp.digicert.com/rfc3161'', ''/as'',
                ''/td'', ''sha256'', ''/fd'', ''sha256'']
      | Osx \<Rightarrow>
          Some [tool, ''--keychain'', os_expanduser os ''~/Library/Keychains/login.keychain'',
                ''-vvvv'', ''--deep'', ''--force'', ''--sign'',
                ''Developer ID Application: Hammer & Chisel Inc. (53Q6R32WPB)'']
      | Linux \<Rightarrow> None)"

text \<open>Lines 197 to 203: the body of the inner loop, for one file name of one directory.\<close>

definition sign_file :: "ospath \<Rightarrow> 'w os \<Rightarrow> platform \<Rightarrow> string list \<Rightarrow> string \<Rightarrow> string \<Rightarrow> 'w prog" where
  "sign_file P os pf base path fname =
     (if snd (splitext P fname) \<notin> signable_extensions pf then skip
      else run_all [echo (''Sign '' @ join P path fname),
                    check_call os (base @ [join P path fname])])"

text \<open>
  \<open>sign\<close> (lines 163 to 203). The tree is read when the loop starts; the signing tool
  changes the bytes of the files it signs, not the names \<open>os.walk\<close> lists.
  The first element of the command is what \<open>get_signtool\<close> returned. It is a
  string on the two platforms that have a command (\<open>get_signtool_None\<close> below), so
  the branch for Python's \<open>None\<close> in the expression for it is never taken.
\<close>

definition sign :: "ospath \<Rightarrow> 'w os \<Rightarrow> config \<Rightarrow> 'w prog" where
  "sign P os cfg s =
     (case get_signtool P cfg of
        Inl e \<Rightarrow> (Some e, s)
      | Inr tool \<Rightarrow>
          (case sign_command_base os (PLATFORM cfg) (case tool of None \<Rightarrow> ''None'' | Some t \<Rightarrow> t) of
             None \<Rightarrow> echo ''Not signing things on this platform yet'' s
           | Some base \<Rightarrow>
               run_all
                 [echo ''--- Signing'',
                  run_all
                    (map (\<lambda>(path, ds, fnames).
                            run_all (map (sign_file P os (PLATFORM cfg) base path) fnames))
                       (os_walk P os (world s) (INSTALL_ROOT P cfg)))] s))"

subsection \<open>\<open>archive\<close>\<close>

text \<open>
  Finding a file by a path relative to the directory \<open>es\<close>, for \<open>os.stat\<close> and
  for \<open>open\<close>: the empty component and \<open>.\<close> stay in place, a name enters a
  subdirectory or is the file. A path that has a drive, is absolute or climbs with
  \<open>..\<close> leaves the directory, and what lies outside is not described by \<open>es\<close>: such
  a path is an error here. The operating system splits a path at the separators of the
  platform. Names are compared as they are; the paths the script opens are made of the
  names \<open>os.walk\<close> gave it.
\<close>

fun read_comps :: "node list \<Rightarrow> string list \<Rightarrow> error + string \<times> int" where
  "read_comps es [] = Inl (OSError ''is a directory'')"
| "read_comps es (c # cs) =
     (if c = [] \<or> c = ''.'' then read_comps es cs
      else if c = ''..'' then Inl (OSError ''outside'')
      else (case find (\<lambda>e. node_name e = c) es of
              None \<Rightarrow> Inl (OSError ''no such file'')
            | Some (File n b y) \<Rightarrow> if cs = [] then Inr (b, y) else Inl (OSError ''not a directory'')
            | Some (Dir n sub) \<Rightarrow> read_comps sub cs))"

definition is_sep :: "ospath \<Rightarrow> char \<Rightarrow> bool" where
  "is_sep P c = (c = sep P \<or> Some c = altsep P)"

definition read_file :: "ospath \<Rightarrow> node list \<Rightarrow> string \<Rightarrow> error + string \<times> int" where
  "read_file P es path =
     (if fst (splitdrive P path) \<noteq> [] \<or> (path \<noteq> [] \<and> is_sep P (hd path))
      then Inl (OSError ''outside'')
      else read_comps es (split_on (sep P) (map (\<lambda>c. if is_sep P c then sep P else c) path)))"

text \<open>
  The name \<open>ZipFile.write(filename, arcname)\<close> stores: \<open>arcname\<close> without its drive,
  normalized, without leading separators, with \<open>/\<close> for the separator, cut at the
  first NUL character.
\<close>

definition zip_arcname :: "ospath \<Rightarrow> string \<Rightarrow> string" where
  "zip_arcname P arcname =
     takeWhile (\<lambda>c. c \<noteq> CHR 0x00)
       (map (\<lambda>c. if c = sep P then CHR ''/'' else c)
          (dropWhile (\<lambda>c. c = sep P \<or> Some c = altsep P)
             (normpath P (snd (splitdrive P arcname)))))"

text \<open>
  Well-formed UTF-8. The name of a file is a Python string that holds a lone surrogate
  exactly when the bytes of the name are not well-formed UTF-8, and only then
  \<open>str.encode('utf-8')\<close> raises.
\<close>

definition byte_in :: "nat \<Rightarrow> nat \<Rightarrow> char \<Rightarrow> bool" where
  "byte_in lo hi c = (lo \<le> (of_char c :: nat) \<and> (of_char c :: nat) \<le> hi)"

definition conts :: "nat \<Rightarrow> string \<Rightarrow> bool" where
  "conts n s = (n \<le> length s \<and> list_all (byte_in 0x80 0xBF) (take n s))"

fun utf8 :: "string \<Rightarrow> bool" where
  "utf8 [] = True"
| "utf8 (c # s) =
     (if byte_in 0x00 0x7F c then utf8 s
      else if byte_in 0xC2 0xDF c then conts 1 s \<and> utf8 (drop 1 s)
      else if byte_in 0xE0 0xE0 c then conts 2 s \<and> byte_in 0xA0 0xBF (hd s) \<and> utf8 (drop 2 s)
      else if byte_in 0xE1 0xEC c \<or> byte_in 0xEE 0xEF c then conts 2 s \<and> utf8 (drop 2 s)
      else if byte_in 0xED 0xED c then conts 2 s \<and> byte_in 0x80 0x9F (hd s) \<and> utf8 (drop 2 s)
      else if byte_in 0xF0 0xF0 c then conts 3 s \<and> byte_in 0x90 0xBF (hd s) \<and> utf8 (drop 3 s)
      else if byte_in 0xF1 0xF3 c then conts 3 s \<and> utf8 (drop 3 s)
      else if byte_in 0xF4 0xF4 c then conts 3 s \<and> byte_in 0x80 0x8F (hd s) \<and> utf8 (drop 3 s)
      else False)"

text \<open>
  What \<open>ZipFile.write\<close> raises for a file it has found, by the name it stores and the
  year of the modification time, in the order of the library: \<open>ZipInfo\<close> refuses a
  year before 1980 (the archive is opened with the default \<open>strict_timestamps\<close>); then
  the header is built, for which the name is encoded, and the date, which has seven bits
  for the years from 1980, and the length of the name are packed into 16 bits each.
  Nothing of the file has been written to the archive when one of them raises.
\<close>

definition zip_error :: "string \<Rightarrow> int \<Rightarrow> error option" where
  "zip_error name year =
     (if year < 1980 then Some (ValueError ''ZIP does not support timestamps before 1980'')
      else if \<not> utf8 name then Some (UnicodeEncodeError name)
      else if 2107 < year \<or> 65535 < length name
      then Some (StructError ''ushort format requires 0 <= number <= 65535'')
      else None)"

text \<open>
  \<open>archive_file.write(fpath, dst_path)\<close>, with the current directory the scanned one:
  the file is found and read, and unless the library raises the entry is appended to the
  archive.
\<close>

definition zip_write :: "ospath \<Rightarrow> 'w os \<Rightarrow> string \<Rightarrow> string \<Rightarrow> 'w prog" where
  "zip_write P os fpath arcname s =
     (case os_scandir os (world s) ''.'' of
        None \<Rightarrow> (Some (OSError ''no such file''), s)
      | Some es \<Rightarrow>
          (case read_file P es fpath of
             Inl e \<Rightarrow> (Some e, s)
           | Inr (b, year) \<Rightarrow>
               (case zip_error (zip_arcname P arcname) year of
                  Some e \<Rightarrow> (Some e, s)
                | None \<Rightarrow>
                    (None, s\<lparr>zipfile := (fst (zipfile s),
                                          snd (zipfile s) @ [(zip_arcname P arcname, b)])\<rparr>))))"

text \<open>Lines 157 to 160: the body of the inner loop.\<close>

definition archive_file :: "ospath \<Rightarrow> 'w os \<Rightarrow> string \<Rightarrow> string \<Rightarrow> 'w prog" where
  "archive_file P os path fname =
     (let fpath = join P path fname;
          dst_path = normpath P (join P ''discord-rpc'' fpath)
      in run_all [echo (''Adding '' @ dst_path), zip_write P os fpath dst_path])"

text \<open>
  \<open>archive\<close> (lines 146 to 160). The script does not close the \<open>ZipFile\<close>; the
  archive is what has been written to it when the function returns.
\<close>

definition archive :: "ospath \<Rightarrow> 'w os \<Rightarrow> config \<Rightarrow> 'w prog" where
  "archive P os cfg =
     (let archive_file_path =
            join3 P (SCRIPT_PATH cfg) ''builds''
              (''discord-rpc-'' @ platform_name (PLATFORM cfg) @ ''.zip'')
      in run_all
           [echo ''--- Archiving'',
            lift_os (\<lambda>w. os_zip_create os w archive_file_path),
            (\<lambda>s. (None, s\<lparr>zipfile := (archive_file_path, [])\<rparr>)),
            cd os (INSTALL_ROOT P cfg)
              (\<lambda>s. run_all
                      (map (\<lambda>(path, ds, fnames). run_all (map (archive_file P os path) fnames))
                         (os_walk P os (world s) ''.'')) s)])"

subsection \<open>\<open>cli\<close>\<close>

text \<open>
  \<open>cli\<close> (lines 57 to 66). \<open>ctx.invoke(libs, clean=clean)\<close> leaves the four other
  flags of \<open>libs\<close> at their default, false.
\<close>

definition cli :: "ospath \<Rightarrow> 'w os \<Rightarrow> config \<Rightarrow> string option \<Rightarrow> bool \<Rightarrow> 'w prog" where
  "cli P os cfg invoked_subcommand clean =
     (if invoked_subcommand = None
      then run_all
             [invoke ''libs'' (libs P os cfg clean False False False False),
              (if IS_BUILD_MACHINE (environ cfg) then invoke ''sign'' (sign P os cfg) else skip),
              invoke ''archive'' (archive P os cfg)]
      else skip)"

section \<open>Reading a run\<close>

text \<open>
  The commands a trace hands to \<open>subprocess.check_call\<close>, and the subcommands it
  enters, in order.
\<close>

fun call_of :: "event \<Rightarrow> string list list" where
  "call_of (Call argv) = [argv]"
| "call_of e = []"

fun invoke_of :: "event \<Rightarrow> string list" where
  "invoke_of (Invoke n) = [n]"
| "invoke_of e = []"

definition proj :: "(event \<Rightarrow> 'a list) \<Rightarrow> event list \<Rightarrow> 'a list" where
  "proj f tr = concat (map f tr)"

definition calls :: "event list \<Rightarrow> string list list" where
  "calls tr = proj call_of tr"

definition invoked :: "event list \<Rightarrow> string list" where
  "invoked tr = proj invoke_of tr"

text \<open>
  \<open>emits f p es\<close>: from any state, \<open>p\<close> adds to the \<open>f\<close>-part of the trace an initial
  segment of \<open>es\<close>, and all of \<open>es\<close> when it raises nothing.
\<close>

definition emits :: "(event \<Rightarrow> 'a list) \<Rightarrow> 'w prog \<Rightarrow> 'a list \<Rightarrow> bool" where
  "emits f p es =
     (\<forall>s. \<exists>d. proj f (trace (snd (p s))) = proj f (trace s) @ d \<and> prefix d es
              \<and> (fst (p s) = None \<longrightarrow> d = es))"

text \<open>
  The commands of one call of \<open>build_lib\<close> when none fails: the configure step, the
  Debug build unless \<open>just_release\<close>, the Release build with the target \<open>install\<close>.
\<close>

definition variant_calls :: "ospath \<Rightarrow> config \<Rightarrow> variant \<Rightarrow> string list list" where
  "variant_calls P cfg v =
     [initial_cmake P (SCRIPT_PATH cfg) (build_name v) (generator v) (options v)]
     @ (if just_release v then [] else [debug_build]) @ [release_install]"

text \<open>
  A build and install step for a configuration, read generously: any command that has
  \<open>--build\<close>, the configuration and \<open>install\<close> among its arguments.
\<close>

definition build_install_step :: "string \<Rightarrow> string list \<Rightarrow> bool" where
  "build_install_step c argv =
     (''--build'' \<in> set argv \<and> c \<in> set argv \<and> ''install'' \<in> set argv)"

text \<open>\<open>grows f p\<close>: \<open>p\<close> only adds to the \<open>f\<close>-part of the trace.\<close>

definition grows :: "(event \<Rightarrow> 'a list) \<Rightarrow> 'w prog \<Rightarrow> bool" where
  "grows f p = (\<forall>s. \<exists>d. proj f (trace (snd (p s))) = proj f (trace s) @ d)"

subsection \<open>The files of a tree and the commands of \<open>sign\<close>\<close>

text \<open>The pairs of directory path and file name the two loops of a walk visit, in order.\<close>

definition walk_files :: "(string \<times> string list \<times> string list) list \<Rightarrow> (string \<times> string) list" where
  "walk_files W = concat (map (\<lambda>(path, ds, fnames). map (Pair path) fnames) W)"

text \<open>Line 197 and 198: a file name whose extension is in the signable set of the platform.\<close>

definition signable :: "ospath \<Rightarrow> platform \<Rightarrow> string \<Rightarrow> bool" where
  "signable P pf fname = (snd (splitext P fname) \<in> signable_extensions pf)"

text \<open>
  The commands \<open>sign\<close> issues in a world \<open>w\<close> when none fails: the base command with
  the path of each signable file the walk of the install root visits.
\<close>

definition sign_calls :: "ospath \<Rightarrow> 'w os \<Rightarrow> config \<Rightarrow> 'w \<Rightarrow> string list list" where
  "sign_calls P os cfg w =
     (case get_signtool P cfg of
        Inl e \<Rightarrow> []
      | Inr tool \<Rightarrow>
          (case sign_command_base os (PLATFORM cfg) (case tool of None \<Rightarrow> ''None'' | Some t \<Rightarrow> t) of
             None \<Rightarrow> []
           | Some base \<Rightarrow>
               map (\<lambda>(path, fname). base @ [join P path fname])
                 (filter (\<lambda>(path, fname). signable P (PLATFORM cfg) fname)
                    (walk_files (os_walk P os w (INSTALL_ROOT P cfg))))))"

text \<open>
  The names of the regular files of a tree, by recursion on the tree and not by a walk:
  the install tree with \<open>N\<close> signable files and \<open>M\<close> others is a tree whose
  \<open>tree_files\<close> has \<open>N\<close> signable names and \<open>M\<close> others.
\<close>

fun tree_files :: "node list \<Rightarrow> string list" where
  "tree_files [] = []"
| "tree_files (File n b y # es) = n # tree_files es"
| "tree_files (Dir n sub # es) = tree_files sub @ tree_files es"

subsection \<open>The stages of a run of \<open>cli\<close>\<close>

text \<open>
  The steps of a trace: the subcommands entered and the commands handed to
  \<open>subprocess.check_call\<close>, in order, without the printed lines.
\<close>

fun step_of :: "event \<Rightarrow> event list" where
  "step_of (Echo m) = []"
| "step_of (Call argv) = [Call argv]"
| "step_of (Invoke n) = [Invoke n]"

definition steps :: "event list \<Rightarrow> event list" where
  "steps tr = proj step_of tr"

text \<open>
  The state \<open>cli\<close> is in when \<open>libs\<close> has returned or raised, and the state it
  is in before \<open>archive\<close>: after \<open>sign\<close> in an unattended run, after \<open>libs\<close>
  otherwise.
\<close>

definition after_libs :: "ospath \<Rightarrow> 'w os \<Rightarrow> config \<Rightarrow> bool \<Rightarrow> 'w state \<Rightarrow> 'w state" where
  "after_libs P os cfg clean s =
     snd (invoke ''libs'' (libs P os cfg clean False False False False) s)"

definition after_sign :: "ospath \<Rightarrow> 'w os \<Rightarrow> config \<Rightarrow> bool \<Rightarrow> 'w state \<Rightarrow> 'w state" where
  "after_sign P os cfg clean s =
     (if IS_BUILD_MACHINE (environ cfg)
      then snd (invoke ''sign'' (sign P os cfg) (after_libs P os cfg clean s))
      else after_libs P os cfg clean s)"

text \<open>
  The steps of a run of \<open>cli\<close> that raises nothing, after it has entered \<open>libs\<close>:
  the build commands of the full matrix; in an unattended run \<open>sign\<close> and the signing
  commands for the install tree that \<open>libs\<close> left; \<open>archive\<close>.
\<close>

definition cli_steps :: "ospath \<Rightarrow> 'w os \<Rightarrow> config \<Rightarrow> bool \<Rightarrow> 'w state \<Rightarrow> event list" where
  "cli_steps P os cfg clean s =
     map Call (concat (map (variant_calls P cfg)
        (libs_matrix (PLATFORM cfg) (IS_BUILD_MACHINE (environ cfg)) True True False False)))
     @ (if IS_BUILD_MACHINE (environ cfg)
        then Invoke ''sign'' # map Call (sign_calls P os cfg (world (after_libs P os cfg clean s)))
        else [])
     @ [Invoke ''archive'']"

subsection \<open>The files of an install tree and the entries of the archive\<close>

text \<open>
  A file name as a file system hands it out: not empty, not \<open>.\<close> or \<open>..\<close>, without
  \<open>/\<close> and without the NUL character, and on Windows without a backslash or a colon
  (Windows reserves more characters; these are the ones the path functions look for). A
  tree is well formed when every name in it is one and no directory has two entries of
  the same name.
\<close>

definition wf_name :: "platform \<Rightarrow> string \<Rightarrow> bool" where
  "wf_name pf n =
     (n \<noteq> [] \<and> n \<noteq> ''.'' \<and> n \<noteq> ''..'' \<and> CHR ''/'' \<notin> set n \<and> CHR 0x00 \<notin> set n
      \<and> (pf = Win \<longrightarrow> backslash \<notin> set n \<and> CHR '':'' \<notin> set n))"

fun wf_tree :: "platform \<Rightarrow> node list \<Rightarrow> bool" and wf_node :: "platform \<Rightarrow> node \<Rightarrow> bool" where
  "wf_tree pf [] = True"
| "wf_tree pf (e # es) = (wf_node pf e \<and> node_name e \<notin> set (map node_name es) \<and> wf_tree pf es)"
| "wf_node pf (File n b y) = wf_name pf n"
| "wf_node pf (Dir n sub) = (wf_name pf n \<and> wf_tree pf sub)"

text \<open>
  The files under a root, by recursion on the tree and not by a walk: each with its path
  relative to the root, the names joined by \<open>/\<close>, its bytes and the year of its
  modification time.
\<close>

fun tree_entries :: "node list \<Rightarrow> (string \<times> string \<times> int) list" where
  "tree_entries [] = []"
| "tree_entries (File n b y # es) = (n, b, y) # tree_entries es"
| "tree_entries (Dir n sub # es) =
     map (\<lambda>(p, r). (n @ ''/'' @ p, r)) (tree_entries sub) @ tree_entries es"

text \<open>
  The entry the archive is to hold for a file of the tree: the path under the folder
  \<open>discord-rpc\<close>, and the bytes. A file can be stored when \<open>ZipFile.write\<close> raises
  nothing for that name and the year of the file.
\<close>

definition archive_entry :: "string \<times> string \<times> int \<Rightarrow> string \<times> string" where
  "archive_entry e = (''discord-rpc/'' @ fst e, fst (snd e))"

definition storable :: "string \<times> string \<times> int \<Rightarrow> bool" where
  "storable e = (zip_error (''discord-rpc/'' @ fst e) (snd (snd e)) = None)"

text \<open>Line 150: the path of the zip file.\<close>

definition archive_file_path :: "ospath \<Rightarrow> config \<Rightarrow> string" where
  "archive_file_path P cfg =
     join3 P (SCRIPT_PATH cfg) ''builds'' (''discord-rpc-'' @ platform_name (PLATFORM cfg) @ ''.zip'')"

text \<open>
  For the proofs: \<open>'/'.join\<close>; the path \<open>os.walk('.')\<close> gives the directory reached
  by the names \<open>ds\<close>; the files of a tree with their paths as lists of names; the name in
  the archive and the result of reading for one pair of a walk; what is needed of the
  path functions of a platform; and \<open>adds os tree p E\<close>, which says that \<open>p\<close>, run
  where the current directory holds \<open>tree\<close>, raises nothing, leaves the world alone and
  appends \<open>E\<close> to the archive.
\<close>

abbreviation sj :: "string list \<Rightarrow> string" where
  "sj \<equiv> str_join ''/''"

definition dpath :: "ospath \<Rightarrow> string list \<Rightarrow> string" where
  "dpath P ds = str_join [sep P] (''.'' # ds)"

fun centries :: "node list \<Rightarrow> (string list \<times> string \<times> int) list" where
  "centries [] = []"
| "centries (File n b y # es) = ([n], b, y) # centries es"
| "centries (Dir n sub # es) = map (\<lambda>(cs, r). (n # cs, r)) (centries sub) @ centries es"

definition arcname_of :: "ospath \<Rightarrow> string \<times> string \<Rightarrow> string" where
  "arcname_of P pf =
     zip_arcname P (normpath P (join P ''discord-rpc'' (join P (fst pf) (snd pf))))"

definition entry_of ::
  "ospath \<Rightarrow> node list \<Rightarrow> string \<times> string \<Rightarrow> string \<times> (error + string \<times> int)" where
  "entry_of P tree pf = (arcname_of P pf, read_file P tree (join P (fst pf) (snd pf)))"

definition content_of :: "error + string \<times> int \<Rightarrow> string" where
  "content_of r = (case r of Inl e \<Rightarrow> [] | Inr c \<Rightarrow> fst c)"

definition zentry :: "ospath \<Rightarrow> node list \<Rightarrow> string \<times> string \<Rightarrow> string \<times> string" where
  "zentry P tree pf = (arcname_of P pf, content_of (read_file P tree (join P (fst pf) (snd pf))))"

definition path_laws :: "ospath \<Rightarrow> platform \<Rightarrow> bool" where
  "path_laws P pf =
     (\<forall>ds n. (\<forall>d \<in> set ds. wf_name pf d) \<and> wf_name pf n \<longrightarrow>
        join P (dpath P ds) n = dpath P (ds @ [n])
        \<and> arcname_of P (dpath P ds, n) = sj (''discord-rpc'' # ds @ [n])
        \<and> (\<forall>tree. read_file P tree (dpath P (ds @ [n])) = read_comps tree (ds @ [n])))"

definition adds :: "'w os \<Rightarrow> node list \<Rightarrow> 'w prog \<Rightarrow> (string \<times> string) list \<Rightarrow> bool" where
  "adds os tree p E =
     (\<forall>s. os_scandir os (world s) ''.'' = Some tree \<longrightarrow>
          fst (p s) = None \<and> world (snd (p s)) = world s
          \<and> zipfile (snd (p s)) = (fst (zipfile s), snd (zipfile s) @ E))"

text \<open>A world in which no library call of the script raises.\<close>

definition reliable :: "'w os \<Rightarrow> bool" where
  "reliable os =
     ((\<forall>w p. \<exists>w'. os_makedirs os w p = Inr w') \<and> (\<forall>w p. \<exists>w'. os_chdir os w p = Inr w')
      \<and> (\<forall>w a. \<exists>w'. os_check_call os w a = Inr w') \<and> (\<forall>w p. \<exists>w'. os_zip_create os w p = Inr w'))"

subsection \<open>Concrete runs\<close>

text \<open>
  A world in which every library call succeeds and no directory exists yet, with a given
  tree under every path; a checkout at \<open>/repo\<close> on Linux; the state before a run.
\<close>

definition calm_os :: "node list \<Rightarrow> unit os" where
  "calm_os tree =
     \<lparr>os_isdir = (\<lambda>w p. False), os_makedirs = (\<lambda>w p. Inr w), os_rmtree = (\<lambda>w p. w),
      os_getcwd = (\<lambda>w. ''/repo''), os_chdir = (\<lambda>w p. Inr w),
      os_check_call = (\<lambda>w argv. Inr w), os_scandir = (\<lambda>w p. Some tree),
      os_zip_create = (\<lambda>w p. Inr w), os_expanduser = (\<lambda>p. ''/home/ci'' @ drop 1 p)\<rparr>"

definition start :: "unit state" where
  "start = \<lparr>world = (), trace = [], zipfile = ([], [])\<rparr>"

definition linux_cfg :: config where
  "linux_cfg = \<lparr>SCRIPT_PATH = ''/repo'', PLATFORM = Linux, environ = Map.empty\<rparr>"

definition linux_static_debug :: variant where
  "linux_static_debug =
     \<lparr>build_name = ''linux-static'', generator = None, options = [], just_release = False\<rparr>"


definition ci_cfg :: config where
  "ci_cfg = \<lparr>SCRIPT_PATH = ''/repo'', PLATFORM = Osx, environ = [''CI'' \<mapsto> ''true'']\<rparr>"

text \<open>An install tree with two signable files for macOS and four other files.\<close>

definition install_tree :: "node list" where
  "install_tree =
     [File ''libdiscord-rpc.dylib'' ''AB'' 2017,
      File ''README.txt'' ''hello'' 2017,
      Dir ''osx-dynamic''
        [Dir ''lib'' [File ''libdiscord-rpc.dylib'' ''CD'' 2017, File ''.dylib'' [] 2017,
                      File ''x.DYLIB'' [] 2018],
         Dir ''include'' [File ''discord-rpc.h'' ''h'' 1980]]]"






definition codesign :: "string list" where
  "codesign = [''/usr/bin/codesign'', ''--keychain'', ''/home/ci/Library/Keychains/login.keychain'',
               ''-vvvv'', ''--deep'', ''--force'', ''--sign'',
               ''Developer ID Application: Hammer & Chisel Inc. (53Q6R32WPB)'']"

section \<open>Properties\<close>

subsection \<open>The unattended-run flag\<close>

text \<open>
  C10. A run is unattended exactly when the environment variable \<open>CI\<close> is set to the
  string \<open>true\<close>; with \<open>CI\<close> unset, or set to \<open>1\<close> or \<open>True\<close>, the flag every
  entry point reads is false.
\<close>

theorem IS_BUILD_MACHINE_iff:
  "IS_BUILD_MACHINE env = (env ''CI'' = Some ''true'')
   \<and> IS_BUILD_MACHINE (env(''CI'' := None)) = False
   \<and> IS_BUILD_MACHINE (env(''CI'' \<mapsto> ''1'')) = False
   \<and> IS_BUILD_MACHINE (env(''CI'' \<mapsto> ''True'')) = False"
  by (auto simp: IS_BUILD_MACHINE_def environ_get_def split: option.splits)


subsection \<open>The variant matrix\<close>

lemmas matrix_defs = libs_matrix_def link_modes_def static_options_def dynamic_options_def Let_def

text \<open>
  C2. On Windows with both link modes requested the matrix has exactly four variants, one
  per bitness for each link mode, the two bitnesses naming two different generators; with
  one link mode requested it has the two variants of that mode. On macOS and on Linux it
  has exactly one variant for each requested link mode, the static one first: the variant
  named \<open>static\<close> with the static options when \<open>want_static\<close>, the variant named
  \<open>dynamic\<close> with the shared-library options when \<open>want_shared\<close>, and no
  other; that is \<open>want_static + want_shared\<close> variants (and two for the intent that
  requests none, which is normalized to both). Only the shared-library options set
  \<open>BUILD_SHARED_LIBS\<close>.
\<close>

theorem libs_matrix_size:
  "map build_name (libs_matrix Win bm True True sf jr)
     = [''win32-static'', ''win64-static'', ''win32-dynamic'', ''win64-dynamic'']
   \<and> map generator (libs_matrix Win bm True True sf jr)
     = [Some generator32, Some generator64, Some generator32, Some generator64]
   \<and> generator32 \<noteq> generator64
   \<and> length (libs_matrix Win bm True True sf jr) = 4
   \<and> length (libs_matrix Osx bm static shared sf jr)
     = (if static \<or> shared then of_bool static + of_bool shared else 2)
   \<and> length (libs_matrix Linux bm static shared sf jr)
     = (if static \<or> shared then of_bool static + of_bool shared else 2)
   \<and> map variant_shape (libs_matrix Win bm True True sf jr)
     = [(''win32-static'', Some generator32, static_options bm sf),
        (''win64-static'', Some generator64, static_options bm sf),
        (''win32-dynamic'', Some generator32, dynamic_options bm sf),
        (''win64-dynamic'', Some generator64, dynamic_options bm sf)]
   \<and> map variant_shape (libs_matrix Win bm True False sf jr)
     = [(''win32-static'', Some generator32, static_options bm sf),
        (''win64-static'', Some generator64, static_options bm sf)]
   \<and> map variant_shape (libs_matrix Win bm False True sf jr)
     = [(''win32-dynamic'', Some generator32, dynamic_options bm sf),
        (''win64-dynamic'', Some generator64, dynamic_options bm sf)]
   \<and> map variant_shape (libs_matrix Osx bm True True sf jr)
     = [(''osx-static'', None, static_options bm sf), (''osx-dynamic'', None, dynamic_options bm sf)]
   \<and> map variant_shape (libs_matrix Osx bm True False sf jr)
     = [(''osx-static'', None, static_options bm sf)]
   \<and> map variant_shape (libs_matrix Osx bm False True sf jr)
     = [(''osx-dynamic'', None, dynamic_options bm sf)]
   \<and> map variant_shape (libs_matrix Linux bm True True sf jr)
     = [(''linux-static'', None, static_options bm sf),
        (''linux-dynamic'', None, dynamic_options bm sf)]
   \<and> map variant_shape (libs_matrix Linux bm True False sf jr)
     = [(''linux-static'', None, static_options bm sf)]
   \<and> map variant_shape (libs_matrix Linux bm False True sf jr)
     = [(''linux-dynamic'', None, dynamic_options bm sf)]
   \<and> map_of (dynamic_options bm sf) ''BUILD_SHARED_LIBS'' = Some (Bool True)
   \<and> map_of (static_options bm sf) ''BUILD_SHARED_LIBS'' = None"
  by (simp add: libs_matrix_def link_modes_def Let_def variant_shape_def generator32_def
      generator64_def)
     (simp add: static_options_def dynamic_options_def)

text \<open>
  C4. An intent with neither \<open>want_static\<close> nor \<open>want_shared\<close> is normalized to
  both; it yields the matrix of the intent that requests both, and no intent on any
  platform yields an empty matrix.
\<close>

theorem link_modes_default:
  "link_modes False False = (True, True)
   \<and> libs_matrix pf bm False False sf jr = libs_matrix pf bm True True sf jr
   \<and> libs_matrix pf bm static shared sf jr \<noteq> []"
  by (cases pf) (simp_all add: matrix_defs)

text \<open>
  C5. In an unattended run every variant of the matrix has \<open>just_release\<close> set,
  whatever the caller passed.
\<close>

theorem unattended_just_release:
  "\<forall>v \<in> set (libs_matrix pf True static shared sf jr). just_release v"
  by (cases pf) (auto simp add: matrix_defs)

theorem unattended_just_release_witness:
  "libs_matrix Win True False True False False \<noteq> []
   \<and> last (libs_matrix Win True False True False False)
       \<in> set (libs_matrix Win True False True False False)
   \<and> just_release (last (libs_matrix Win True False True False False))"
proof -
  have ne: "libs_matrix Win True False True False False \<noteq> []"
    by (simp add: matrix_defs)
  then have mem: "last (libs_matrix Win True False True False False)
      \<in> set (libs_matrix Win True False True False False)"
    by (rule last_in_set)
  from unattended_just_release [of Win False True False False] mem ne
  show ?thesis by blast
qed

text \<open>
  C8. Every variant's options contain the formatter-disabling key
  \<open>CLANG_FORMAT_SUFFIX\<close> (with the value \<open>none\<close>) exactly when
  \<open>skip_formatter\<close> is set or the run is unattended.
\<close>

theorem formatter_option_iff:
  "\<forall>v \<in> set (libs_matrix pf bm static shared sf jr).
     (''CLANG_FORMAT_SUFFIX'' \<in> fst ` set (options v)) = (sf \<or> bm)
     \<and> map_of (options v) ''CLANG_FORMAT_SUFFIX''
         = (if sf \<or> bm then Some (Str ''none'') else None)"
  by (cases pf) (auto simp add: matrix_defs)

theorem formatter_option_iff_witness:
  "hd (libs_matrix Osx True True True False False)
       \<in> set (libs_matrix Osx True True True False False)
   \<and> ''CLANG_FORMAT_SUFFIX''
       \<in> fst ` set (options (hd (libs_matrix Osx True True True False False)))
   \<and> hd (libs_matrix Osx False True True False False)
       \<in> set (libs_matrix Osx False True True False False)
   \<and> ''CLANG_FORMAT_SUFFIX''
       \<notin> fst ` set (options (hd (libs_matrix Osx False True True False False)))"
proof -
  have m1: "hd (libs_matrix Osx True True True False False)
      \<in> set (libs_matrix Osx True True True False False)"
    by (rule hd_in_set) (simp add: matrix_defs)
  have m2: "hd (libs_matrix Osx False True True False False)
      \<in> set (libs_matrix Osx False True True False False)"
    by (rule hd_in_set) (simp add: matrix_defs)
  from formatter_option_iff [of Osx True True True False False]
       formatter_option_iff [of Osx False True True False False] m1 m2
  show ?thesis by blast
qed

text \<open>
  C9. The intent \<open>static = False, shared = True, just_release = True\<close>, attended and
  with the formatter kept, on Linux and on macOS: one variant, named
  \<open>linux-dynamic\<close> or \<open>osx-dynamic\<close>, whose options are exactly
  \<open>BUILD_SHARED_LIBS\<close> and \<open>USE_STATIC_CRT\<close>, both true, rendered in the
  configure command as \<open>-DBUILD_SHARED_LIBS=ON\<close> and \<open>-DUSE_STATIC_CRT=ON\<close>.
  Static variants have the empty option dictionary.
\<close>

theorem shared_release_scenario:
  "libs_matrix Linux False False True False True
     = [\<lparr>build_name = ''linux-dynamic'', generator = None,
         options = [(''BUILD_SHARED_LIBS'', Bool True), (''USE_STATIC_CRT'', Bool True)],
         just_release = True\<rparr>]
   \<and> libs_matrix Osx False False True False True
     = [\<lparr>build_name = ''osx-dynamic'', generator = None,
         options = [(''BUILD_SHARED_LIBS'', Bool True), (''USE_STATIC_CRT'', Bool True)],
         just_release = True\<rparr>]
   \<and> endswith ''linux-dynamic'' ''dynamic'' \<and> endswith ''osx-dynamic'' ''dynamic''
   \<and> initial_cmake posixpath script_path ''linux-dynamic'' None
        [(''BUILD_SHARED_LIBS'', Bool True), (''USE_STATIC_CRT'', Bool True)]
     = [''cmake'', script_path, ''-DCMAKE_INSTALL_PREFIX=../install/linux-dynamic'',
        ''-DBUILD_SHARED_LIBS=ON'', ''-DUSE_STATIC_CRT=ON'']
   \<and> initial_cmake posixpath script_path ''osx-dynamic'' None
        [(''BUILD_SHARED_LIBS'', Bool True), (''USE_STATIC_CRT'', Bool True)]
     = [''cmake'', script_path, ''-DCMAKE_INSTALL_PREFIX=../install/osx-dynamic'',
        ''-DBUILD_SHARED_LIBS=ON'', ''-DUSE_STATIC_CRT=ON'']
   \<and> static_options False False = []
   \<and> map options (libs_matrix Linux False True False False jr) = [[]]
   \<and> map options (libs_matrix Osx False True False False jr) = [[]]
   \<and> map options (libs_matrix Win False True False False jr) = [[], []]"
  by (simp add: matrix_defs endswith_def initial_cmake_def join_def join3_def posixpath_def posix_join_def
      startswith_def render_option_def)

subsection \<open>Traces of the statements\<close>

lemma proj_append [simp]: "proj f (xs @ ys) = proj f xs @ proj f ys"
  by (simp add: proj_def)

lemma proj_single [simp]: "proj f [e] = f e"
  by (simp add: proj_def)

lemma emits_skip: "emits f skip []"
  by (simp add: emits_def skip_def)

lemma emits_echo: "emits f (echo m) (f (Echo m))"
  by (simp add: emits_def echo_def)

lemma emits_lift_os: "emits f (lift_os g) []"
  by (simp add: emits_def lift_os_def split: sum.splits)

lemma emits_check_call: "emits f (check_call os a) (f (Call a))"
  by (simp add: emits_def check_call_def lift_os_def split: sum.splits)

lemma emits_invoke:
  assumes "emits f p es"
  shows "emits f (invoke n p) (f (Invoke n) @ es)"
  unfolding emits_def
proof
  fix s :: "'b state"
  let ?s1 = "s\<lparr>trace := trace s @ [Invoke n]\<rparr>"
  from assms obtain d where d: "proj f (trace (snd (p ?s1))) = proj f (trace ?s1) @ d"
      "prefix d es" "fst (p ?s1) = None \<longrightarrow> d = es"
    unfolding emits_def by blast
  show "\<exists>d. proj f (trace (snd (invoke n p s))) = proj f (trace s) @ d
           \<and> prefix d (f (Invoke n) @ es) \<and> (fst (invoke n p s) = None \<longrightarrow> d = f (Invoke n) @ es)"
    using d by (intro exI [of _ "f (Invoke n) @ d"]) (simp add: invoke_def)
qed

lemma emits_run_all_Nil: "emits f (run_all []) []"
  by (simp add: emits_def)

lemma emits_run_all_Cons:
  assumes p: "emits f p es" and ps: "emits f (run_all ps) fs"
  shows "emits f (run_all (p # ps)) (es @ fs)"
  unfolding emits_def
proof
  fix s :: "'b state"
  from p obtain d where d: "proj f (trace (snd (p s))) = proj f (trace s) @ d"
      "prefix d es" "fst (p s) = None \<longrightarrow> d = es"
    unfolding emits_def by blast
  obtain r s1 where ps1: "p s = (r, s1)" by (cases "p s")
  show "\<exists>d. proj f (trace (snd (run_all (p # ps) s))) = proj f (trace s) @ d
           \<and> prefix d (es @ fs) \<and> (fst (run_all (p # ps) s) = None \<longrightarrow> d = es @ fs)"
  proof (cases r)
    case None
    with d ps1 have de: "d = es" by simp
    from ps obtain d' where d': "proj f (trace (snd (run_all ps s1))) = proj f (trace s1) @ d'"
        "prefix d' fs" "fst (run_all ps s1) = None \<longrightarrow> d' = fs"
      unfolding emits_def by blast
    show ?thesis
      using d d' ps1 None de by (intro exI [of _ "es @ d'"]) simp
  next
    case (Some e)
    show ?thesis
      using d ps1 Some by (intro exI [of _ d]) (simp add: prefix_def, auto)
  qed
qed

lemma emits_run_all_map:
  assumes "\<And>x. x \<in> set xs \<Longrightarrow> emits f (g x) (h x)"
  shows "emits f (run_all (map g xs)) (concat (map h xs))"
  using assms
proof (induction xs)
  case Nil
  show ?case by (simp add: emits_def)
next
  case (Cons x xs)
  have "emits f (run_all (g x # map g xs)) (h x @ concat (map h xs))"
    using Cons by (intro emits_run_all_Cons) simp_all
  then show ?case by (simp del: run_all.simps)
qed

lemma emits_cd:
  assumes "emits f body es"
  shows "emits f (cd os d body) es"
proof -
  have "emits f (\<lambda>s. run_all [lift_os (\<lambda>w. os_chdir os w d), body, lift_os (\<lambda>w. os_chdir os w (os_getcwd os (world t)))] s) ([] @ es @ [] @ [])" for t
    by (intro emits_run_all_Cons emits_run_all_Nil emits_lift_os assms)
  then show ?thesis
    using assms by (auto simp: emits_def cd_def)
qed

lemma emits_mkdir_p:
  assumes "\<And>m. f (Echo m) = []"
  shows "emits f (mkdir_p os path) []"
proof -
  have "emits f (run_all [echo (''Making '' @ path), lift_os (\<lambda>w. os_makedirs os w path)]) (f (Echo (''Making '' @ path)) @ [] @ [])"
    by (intro emits_run_all_Cons emits_run_all_Nil emits_lift_os emits_echo)
  then show ?thesis
    by (auto simp: emits_def mkdir_p_def assms)
qed

lemma emits_if:
  "emits f p es \<Longrightarrow> emits f q fs \<Longrightarrow> emits f (if b then p else q) (if b then es else fs)"
  by simp

lemma emits_state:
  assumes "\<And>t. emits f (g t) es"
  shows "emits f (\<lambda>s. g s s) es"
  using assms by (simp add: emits_def)

lemma run_all_Cons_ok: "p s = (None, s') \<Longrightarrow> run_all (p # ps) s = run_all ps s'"
  by simp

lemma run_all_single: "run_all [p] s = p s"
proof (cases "p s")
  case (Pair r s')
  then show ?thesis by (cases r) simp_all
qed

subsection \<open>The commands of \<open>build_lib\<close>\<close>

lemma emits_build_lib_gen:
  assumes "\<And>m. f (Echo m) = []"
  shows "emits f (build_lib P os cfg name gen opts jr)
     (f (Call (initial_cmake P (SCRIPT_PATH cfg) name gen opts))
      @ (if jr then [] else f (Call debug_build)) @ f (Call release_install))"
proof -
  have inner: "emits f
      (run_all [echo (''--- Building '' @ name),
                check_call os (initial_cmake P (SCRIPT_PATH cfg) name gen opts),
                (if \<not> jr then check_call os debug_build else skip),
                check_call os release_install])
      (f (Echo (''--- Building '' @ name))
       @ f (Call (initial_cmake P (SCRIPT_PATH cfg) name gen opts))
       @ (if \<not> jr then f (Call debug_build) else [])
       @ f (Call release_install) @ [])"
    by (intro emits_run_all_Cons emits_run_all_Nil emits_echo emits_check_call emits_if emits_skip)
  have "emits f (build_lib P os cfg name gen opts jr)
      ([] @ [] @ (f (Echo (''--- Building '' @ name))
       @ f (Call (initial_cmake P (SCRIPT_PATH cfg) name gen opts))
       @ (if \<not> jr then f (Call debug_build) else [])
       @ f (Call release_install) @ []) @ [])"
    unfolding build_lib_def Let_def
    by (intro emits_run_all_Cons emits_run_all_Nil emits_mkdir_p emits_cd inner assms)
  then show ?thesis by (cases jr) (simp_all add: assms)
qed

lemma debug_build_neq_initial_cmake:
  "debug_build \<noteq> initial_cmake P sp name gen opts"
proof
  assume "debug_build = initial_cmake P sp name gen opts"
  then have "debug_build ! 2 = initial_cmake P sp name gen opts ! 2" by simp
  then show False by (simp add: debug_build_def initial_cmake_def)
qed

lemma debug_build_neq_release_install: "debug_build \<noteq> release_install"
  by (simp add: debug_build_def release_install_def)

lemma debug_in_variant_calls:
  "(debug_build \<in> set (variant_calls P cfg v)) = (\<not> just_release v)"
  by (simp add: variant_calls_def debug_build_neq_initial_cmake debug_build_neq_release_install)

text \<open>
  C6, as amended. Every call of \<open>build_lib\<close> hands to \<open>subprocess.check_call\<close> an
  initial segment of: the configure command, the Debug build
  \<open>cmake --build . --config Debug\<close> exactly when \<open>just_release\<close> is false, the Release
  build with \<open>--target install\<close> last; and all of them when no step raises. The Debug
  command builds only: it has no install target, for any configuration name.
\<close>

theorem build_lib_calls:
  "\<exists>d. calls (trace (snd (build_lib P os cfg (build_name v) (generator v) (options v) (just_release v) s)))
          = calls (trace s) @ d
      \<and> prefix d (variant_calls P cfg v)
      \<and> (fst (build_lib P os cfg (build_name v) (generator v) (options v) (just_release v) s) = None
           \<longrightarrow> d = variant_calls P cfg v)
      \<and> (debug_build \<in> set (variant_calls P cfg v)) = (\<not> just_release v)
      \<and> last (variant_calls P cfg v) = release_install
      \<and> build_install_step ''Release'' release_install
      \<and> \<not> build_install_step c debug_build"
proof -
  have "emits call_of (build_lib P os cfg (build_name v) (generator v) (options v) (just_release v))
          (variant_calls P cfg v)"
    using emits_build_lib_gen [of call_of P os cfg "build_name v" "generator v" "options v" "just_release v"]
    by (cases "just_release v") (simp_all add: variant_calls_def)
  then obtain d where d:
    "calls (trace (snd (build_lib P os cfg (build_name v) (generator v) (options v) (just_release v) s)))
          = calls (trace s) @ d"
    "prefix d (variant_calls P cfg v)"
    "fst (build_lib P os cfg (build_name v) (generator v) (options v) (just_release v) s) = None
           \<longrightarrow> d = variant_calls P cfg v"
    unfolding emits_def calls_def by blast
  have l: "last (variant_calls P cfg v) = release_install"
    by (simp add: variant_calls_def)
  have r: "build_install_step ''Release'' release_install"
    by (simp add: build_install_step_def release_install_def)
  have n: "\<not> build_install_step c debug_build"
    by (simp add: build_install_step_def debug_build_def)
  show ?thesis
    by (rule exI [of _ d]) (intro conjI d l r n debug_in_variant_calls)
qed

lemmas eval_defs = build_lib_def cd_def mkdir_p_def check_call_def lift_os_def echo_def skip_def
  calm_os_def start_def linux_cfg_def Let_def calls_def proj_def

lemma run_linux_static_debug:
  "build_lib posixpath (calm_os []) linux_cfg ''linux-static'' None [] False start
   = (None, \<lparr>world = (),
       trace = [Echo ''Making /repo/builds/linux-static'',
                Echo ''Making /repo/builds/install/linux-static'',
                Echo ''--- Building linux-static'',
                Call [''cmake'', ''/repo'', ''-DCMAKE_INSTALL_PREFIX=../install/linux-static''],
                Call debug_build, Call release_install],
       zipfile = ([], [])\<rparr>)"
  by (simp add: eval_defs initial_cmake_def join_def join3_def posixpath_def posix_join_def
      startswith_def INSTALL_ROOT_def)

text \<open>
  C6, as stated: a Debug build and install step when \<open>just_release\<close> is false. In the
  run of \<open>linux-static\<close> with \<open>just_release\<close> false in which every command succeeds,
  three commands are issued and none is a build and install step for Debug.
\<close>

theorem build_lib_debug_installs_counterexample:
  "\<not> just_release linux_static_debug
   \<and> fst (build_lib posixpath (calm_os []) linux_cfg (build_name linux_static_debug)
            (generator linux_static_debug) (options linux_static_debug)
            (just_release linux_static_debug) start) = None
   \<and> calls (trace (snd (build_lib posixpath (calm_os []) linux_cfg (build_name linux_static_debug)
            (generator linux_static_debug) (options linux_static_debug)
            (just_release linux_static_debug) start)))
      = [[''cmake'', ''/repo'', ''-DCMAKE_INSTALL_PREFIX=../install/linux-static''],
         [''cmake'', ''--build'', ''.'', ''--config'', ''Debug''],
         [''cmake'', ''--build'', ''.'', ''--config'', ''Release'', ''--target'', ''install'']]
   \<and> \<not> list_ex (build_install_step ''Debug'')
         (calls (trace (snd (build_lib posixpath (calm_os []) linux_cfg (build_name linux_static_debug)
            (generator linux_static_debug) (options linux_static_debug)
            (just_release linux_static_debug) start))))"
  by (simp add: linux_static_debug_def run_linux_static_debug calls_def proj_def
      build_install_step_def debug_build_def release_install_def)

theorem build_lib_calls_witness:
  "fst (build_lib posixpath (calm_os []) linux_cfg (build_name linux_static_debug)
            (generator linux_static_debug) (options linux_static_debug)
            (just_release linux_static_debug) start) = None
   \<and> calls (trace (snd (build_lib posixpath (calm_os []) linux_cfg (build_name linux_static_debug)
            (generator linux_static_debug) (options linux_static_debug)
            (just_release linux_static_debug) start)))
      = variant_calls posixpath linux_cfg linux_static_debug
   \<and> debug_build \<in> set (variant_calls posixpath linux_cfg linux_static_debug)"
proof -
  have ok: "fst (build_lib posixpath (calm_os []) linux_cfg (build_name linux_static_debug)
            (generator linux_static_debug) (options linux_static_debug)
            (just_release linux_static_debug) start) = None"
    by (simp add: linux_static_debug_def run_linux_static_debug)
  have nil: "calls (trace start) = []"
    by (simp add: start_def calls_def proj_def)
  have jr: "\<not> just_release linux_static_debug"
    by (simp add: linux_static_debug_def)
  from build_lib_calls [of posixpath "calm_os []" linux_cfg linux_static_debug start] ok nil jr
  show ?thesis by auto
qed

subsection \<open>The commands of \<open>sign\<close>\<close>

lemma proj_map_Call_call_of [simp]: "proj call_of (map Call xs) = xs"
  by (induction xs) (simp_all add: proj_def)

lemma proj_map_Call_invoke_of [simp]: "proj invoke_of (map Call xs) = []"
  by (induction xs) (simp_all add: proj_def)

lemma proj_Nil [simp]: "proj f [] = []"
  by (simp add: proj_def)

lemma proj_Cons [simp]: "proj f (e # es) = f e @ proj f es"
  by (simp add: proj_def)

lemma emits_sign_file:
  assumes "\<And>m. f (Echo m) = []"
  shows "emits f (sign_file P os pf base path fname)
           (if signable P pf fname then f (Call (base @ [join P path fname])) else [])"
proof (cases "signable P pf fname")
  case True
  have "emits f (run_all [echo (''Sign '' @ join P path fname),
                          check_call os (base @ [join P path fname])])
          (f (Echo (''Sign '' @ join P path fname)) @ f (Call (base @ [join P path fname])) @ [])"
    by (intro emits_run_all_Cons emits_run_all_Nil emits_echo emits_check_call)
  with True show ?thesis
    by (simp add: sign_file_def signable_def assms)
next
  case False
  then show ?thesis
    by (simp add: sign_file_def signable_def emits_skip)
qed

lemma sign_events_flat:
  "concat (map (\<lambda>(path, ds, fnames).
             concat (map (\<lambda>fname. if signable P pf fname
                                    then f (Call (base @ [join P path fname])) else []) fnames)) W)
   = proj f (map Call (map (\<lambda>(path, fname). base @ [join P path fname])
       (filter (\<lambda>(path, fname). signable P pf fname) (walk_files W))))"
proof (induction W)
  case Nil
  show ?case by (simp add: walk_files_def)
next
  case (Cons t W)
  obtain path ds fnames where t: "t = (path, ds, fnames)" by (cases t)
  have inner: "concat (map (\<lambda>fname. if signable P pf fname
                                    then f (Call (base @ [join P path fname])) else []) fnames)
     = proj f (map Call (map (\<lambda>(path, fname). base @ [join P path fname])
         (filter (\<lambda>(path, fname). signable P pf fname) (map (Pair path) fnames))))"
    by (induction fnames) simp_all
  have wf: "walk_files (t # W) = map (Pair path) fnames @ walk_files W"
    by (simp add: walk_files_def t)
  show ?case
    using Cons.IH by (simp only: wf) (simp add: t inner)
qed

lemma emits_sign_loop:
  assumes "\<And>m. f (Echo m) = []"
  shows "emits f
     (run_all (map (\<lambda>(path, ds, fnames). run_all (map (sign_file P os pf base path) fnames)) W))
     (proj f (map Call (map (\<lambda>(path, fname). base @ [join P path fname])
       (filter (\<lambda>(path, fname). signable P pf fname) (walk_files W)))))"
proof -
  have "emits f
     (run_all (map (\<lambda>(path, ds, fnames). run_all (map (sign_file P os pf base path) fnames)) W))
     (concat (map (\<lambda>(path, ds, fnames).
             concat (map (\<lambda>fname. if signable P pf fname
                                    then f (Call (base @ [join P path fname])) else []) fnames)) W))"
  proof (rule emits_run_all_map)
    fix t assume "t \<in> set W"
    obtain path ds fnames where t: "t = (path, ds, fnames)" by (cases t)
    have "emits f (run_all (map (sign_file P os pf base path) fnames))
            (concat (map (\<lambda>fname. if signable P pf fname
                                    then f (Call (base @ [join P path fname])) else []) fnames))"
      by (rule emits_run_all_map) (rule emits_sign_file, rule assms)
    then show "emits f (case t of (path, ds, fnames) \<Rightarrow> run_all (map (sign_file P os pf base path) fnames))
            (case t of (path, ds, fnames) \<Rightarrow>
             concat (map (\<lambda>fname. if signable P pf fname
                                    then f (Call (base @ [join P path fname])) else []) fnames))"
      by (simp add: t)
  qed
  then show ?thesis by (simp only: sign_events_flat)
qed

lemma sign_emits:
  assumes f: "\<And>m. f (Echo m) = []"
  shows "\<exists>d. proj f (trace (snd (sign P os cfg s))) = proj f (trace s) @ d
           \<and> prefix d (proj f (map Call (sign_calls P os cfg (world s))))
           \<and> (fst (sign P os cfg s) = None \<longrightarrow> d = proj f (map Call (sign_calls P os cfg (world s))))"
proof (cases "get_signtool P cfg")
  case (Inl e)
  then show ?thesis by (simp add: sign_def sign_calls_def)
next
  case (Inr tool)
  show ?thesis
  proof (cases "sign_command_base os (PLATFORM cfg) (case tool of None \<Rightarrow> ''None'' | Some t \<Rightarrow> t)")
    case None
    with Inr show ?thesis by (simp add: sign_def sign_calls_def echo_def f)
  next
    case (Some base)
    let ?W = "os_walk P os (world s) (INSTALL_ROOT P cfg)"
    let ?E = "proj f (map Call (map (\<lambda>(path, fname). base @ [join P path fname])
       (filter (\<lambda>(path, fname). signable P (PLATFORM cfg) fname) (walk_files ?W))))"
    let ?p = "run_all [echo ''--- Signing'',
                  run_all (map (\<lambda>(path, ds, fnames).
                            run_all (map (sign_file P os (PLATFORM cfg) base path) fnames)) ?W)]"
    have "emits f ?p (f (Echo ''--- Signing'') @ ?E @ [])"
      by (intro emits_run_all_Cons emits_run_all_Nil emits_echo emits_sign_loop f)
    then have "emits f ?p ?E" by (simp add: f)
    then have "\<exists>d. proj f (trace (snd (?p s))) = proj f (trace s) @ d \<and> prefix d ?E
                 \<and> (fst (?p s) = None \<longrightarrow> d = ?E)"
      unfolding emits_def by blast
    moreover have "sign P os cfg s = ?p s"
      using Inr Some by (simp add: sign_def)
    moreover have "sign_calls P os cfg (world s) = map (\<lambda>(path, fname). base @ [join P path fname])
       (filter (\<lambda>(path, fname). signable P (PLATFORM cfg) fname) (walk_files ?W))"
      using Inr Some by (simp add: sign_calls_def)
    ultimately show ?thesis by simp
  qed
qed


lemma walk_files_Cons [simp]:
  "walk_files ((path, ds, fnames) # W) = map (Pair path) fnames @ walk_files W"
  by (simp add: walk_files_def)

lemma walk_files_append [simp]: "walk_files (A @ B) = walk_files A @ walk_files B"
  by (simp add: walk_files_def)

lemma walk_files_Nil [simp]: "walk_files [] = []"
  by (simp add: walk_files_def)

lemma tree_files_split: "mset (tree_files es) = mset (filenames es) + mset (concat (map (\<lambda>e. case e of File n b y \<Rightarrow> [] | Dir n sub \<Rightarrow> tree_files sub) es))"
  by (induction es rule: tree_files.induct) simp_all




lemma run_all_total:
  "(\<And>p s. p \<in> set ps \<Longrightarrow> fst (p s) = None) \<Longrightarrow> fst (run_all ps s) = None"
proof (induction ps arbitrary: s)
  case Nil
  show ?case by simp
next
  case (Cons p ps)
  obtain r s1 where ps1: "p s = (r, s1)" by (cases "p s")
  with Cons.prems [of p s] have "r = None" by simp
  with ps1 Cons show ?case by simp
qed

lemma check_call_total:
  "(\<And>w argv. \<exists>w'. os_check_call os w argv = Inr w') \<Longrightarrow> fst (check_call os a s) = None"
proof -
  assume h: "\<And>w argv. \<exists>w'. os_check_call os w argv = Inr w'"
  obtain w' where "os_check_call os (world s) a = Inr w'" using h by blast
  then show ?thesis by (simp add: check_call_def lift_os_def)
qed

lemma sign_file_total:
  assumes "\<And>w argv. \<exists>w'. os_check_call os w argv = Inr w'"
  shows "fst (sign_file P os pf base path fname s) = None"
proof (cases "snd (splitext P fname) \<in> signable_extensions pf")
  case True
  have "fst (run_all [echo (''Sign '' @ join P path fname),
                      check_call os (base @ [join P path fname])] s) = None"
    by (rule run_all_total) (auto simp: echo_def check_call_total [OF assms])
  with True show ?thesis by (simp add: sign_file_def)
next
  case False
  then show ?thesis by (simp add: sign_file_def skip_def)
qed

lemma sign_total:
  assumes cc: "\<And>w argv. \<exists>w'. os_check_call os w argv = Inr w'"
    and tool: "get_signtool P cfg = Inr tool"
  shows "fst (sign P os cfg s) = None"
proof (cases "sign_command_base os (PLATFORM cfg) (case tool of None \<Rightarrow> ''None'' | Some t \<Rightarrow> t)")
  case None
  with tool show ?thesis by (simp add: sign_def echo_def)
next
  case (Some base)
  let ?W = "os_walk P os (world s) (INSTALL_ROOT P cfg)"
  have inner: "fst (run_all (map (sign_file P os (PLATFORM cfg) base path) fnames) t) = None"
    for path fnames t
    by (rule run_all_total) (auto simp: sign_file_total [OF cc])
  have loop: "fst (run_all (map (\<lambda>(path, ds, fnames).
                 run_all (map (sign_file P os (PLATFORM cfg) base path) fnames)) ?W) t) = None" for t
    by (rule run_all_total) (auto simp: inner)
  have "fst (run_all [echo ''--- Signing'',
             run_all (map (\<lambda>(path, ds, fnames).
                 run_all (map (sign_file P os (PLATFORM cfg) base path) fnames)) ?W)] s) = None"
    by (rule run_all_total) (auto simp: echo_def loop)
  with tool Some show ?thesis by (simp add: sign_def)
qed



lemma get_signtool_None: "get_signtool P cfg = Inr None \<Longrightarrow> PLATFORM cfg = Linux"
  by (auto simp: get_signtool_def split: platform.splits option.splits)







subsection \<open>The stages of \<open>cli\<close>\<close>

lemma emits_libs:
  assumes f: "\<And>m. f (Echo m) = []"
  shows "emits f (libs P os cfg clean static shared sf jr)
     (proj f (map Call (concat (map (variant_calls P cfg)
        (libs_matrix (PLATFORM cfg) (IS_BUILD_MACHINE (environ cfg)) static shared sf jr)))))"
proof -
  let ?M = "libs_matrix (PLATFORM cfg) (IS_BUILD_MACHINE (environ cfg)) static shared sf jr"
  let ?h = "\<lambda>v. f (Call (initial_cmake P (SCRIPT_PATH cfg) (build_name v) (generator v) (options v)))
             @ (if just_release v then [] else f (Call debug_build)) @ f (Call release_install)"
  have rm: "emits f (\<lambda>s. (None, s\<lparr>world := os_rmtree os (world s) ''builds''\<rparr>)) []"
    by (simp add: emits_def)
  have first: "emits f (if clean then (\<lambda>s. (None, s\<lparr>world := os_rmtree os (world s) ''builds''\<rparr>)) else skip) []"
    by (cases clean) (simp_all add: rm emits_skip)
  have loop: "emits f (run_all (map (\<lambda>v. build_lib P os cfg (build_name v) (generator v) (options v)
                 (just_release v)) ?M)) (concat (map ?h ?M))"
    by (rule emits_run_all_map) (rule emits_build_lib_gen, rule f)
  have flat: "concat (map ?h M) = proj f (map Call (concat (map (variant_calls P cfg) M)))" for M
    by (induction M) (simp_all add: variant_calls_def)
  have "emits f (libs P os cfg clean static shared sf jr) ([] @ [] @ concat (map ?h ?M) @ [])"
    unfolding libs_def
    by (intro emits_run_all_Cons emits_run_all_Nil first emits_mkdir_p loop f)
  then show ?thesis by (simp add: flat)
qed

lemma emits_run_all_quiet:
  assumes "\<And>x. x \<in> set xs \<Longrightarrow> emits f (g x) []"
  shows "emits f (run_all (map g xs)) []"
  using assms
proof (induction xs)
  case Nil
  show ?case by (simp add: emits_def)
next
  case (Cons x xs)
  have "emits f (run_all (g x # map g xs)) ([] @ [])"
    using Cons by (intro emits_run_all_Cons) simp_all
  then show ?case by (simp del: run_all.simps)
qed

lemma emits_zip_write: "emits f (zip_write P os a b) []"
  by (simp add: emits_def zip_write_def split: option.splits sum.splits)

lemma emits_archive:
  assumes f: "\<And>m. f (Echo m) = []"
  shows "emits f (archive P os cfg) []"
proof -
  have afile: "emits f (archive_file P os path fname) []" for path fname
  proof -
    have "emits f (archive_file P os path fname)
            (f (Echo (''Adding '' @ normpath P (join P ''discord-rpc'' (join P path fname)))) @ [] @ [])"
      unfolding archive_file_def Let_def
      by (intro emits_run_all_Cons emits_run_all_Nil emits_echo emits_zip_write)
    then show ?thesis by (simp add: f)
  qed
  have inner: "emits f (run_all (map (archive_file P os path) fnames)) []" for path fnames
    by (rule emits_run_all_quiet) (rule afile)
  have loop: "emits f (run_all (map (\<lambda>(path, ds, fnames). run_all (map (archive_file P os path) fnames)) W)) []" for W
    by (rule emits_run_all_quiet) (simp add: case_prod_unfold inner)
  have body: "emits f (\<lambda>s. run_all (map (\<lambda>(path, ds, fnames). run_all (map (archive_file P os path) fnames))
                  (os_walk P os (world s) ''.'')) s) []"
    by (rule emits_state) (rule loop)
  have setz: "emits f (\<lambda>s. (None, s\<lparr>zipfile := z\<rparr>)) []" for z
    by (simp add: emits_def)
  have "emits f (archive P os cfg) (f (Echo ''--- Archiving'') @ [] @ [] @ [] @ [])"
    unfolding archive_def Let_def
    by (intro emits_run_all_Cons emits_run_all_Nil emits_echo emits_lift_os setz emits_cd body)
  then show ?thesis by (simp add: f)
qed

lemma emits_grows: "emits f p es \<Longrightarrow> grows f p"
  unfolding emits_def grows_def by blast

lemma grows_invoke: "grows f p \<Longrightarrow> grows f (invoke n p)"
  unfolding grows_def invoke_def
proof
  fix s :: "'b state"
  assume h: "\<forall>s. \<exists>d. proj f (trace (snd (p s))) = proj f (trace s) @ d"
  then obtain d where "proj f (trace (snd (p (s\<lparr>trace := trace s @ [Invoke n]\<rparr>))))
      = proj f (trace (s\<lparr>trace := trace s @ [Invoke n]\<rparr>)) @ d"
    by blast
  then show "\<exists>d. proj f (trace (snd (p (s\<lparr>trace := trace s @ [Invoke n]\<rparr>)))) = proj f (trace s) @ d"
    by simp
qed

lemma grows_run_all:
  assumes "\<And>p. p \<in> set ps \<Longrightarrow> grows f p"
  shows "grows f (run_all ps)"
  unfolding grows_def
proof
  fix s
  from assms show "\<exists>d. proj f (trace (snd (run_all ps s))) = proj f (trace s) @ d"
  proof (induction ps arbitrary: s)
    case Nil
    show ?case by simp
  next
    case (Cons p ps)
    obtain r s1 where ps1: "p s = (r, s1)" by (cases "p s")
    from Cons.prems [of p] obtain d where d: "proj f (trace s1) = proj f (trace s) @ d"
      unfolding grows_def using ps1 by (metis list.set_intros(1) snd_conv)
    show ?case
    proof (cases r)
      case None
      from Cons.IH [of s1] Cons.prems obtain d' where
        "proj f (trace (snd (run_all ps s1))) = proj f (trace s1) @ d'"
        by auto
      with d ps1 None show ?thesis by simp
    next
      case (Some e)
      with d ps1 show ?thesis by simp
    qed
  qed
qed

lemma emits_sign_quiet: "emits invoke_of (sign P os cfg) []"
  unfolding emits_def
proof
  fix s :: "'a state"
  from sign_emits [of invoke_of P os cfg s]
  show "\<exists>d. proj invoke_of (trace (snd (sign P os cfg s))) = proj invoke_of (trace s) @ d
           \<and> prefix d [] \<and> (fst (sign P os cfg s) = None \<longrightarrow> d = [])"
    by simp
qed

lemma grows_sign: "grows call_of (sign P os cfg)"
  unfolding grows_def
proof
  fix s :: "'a state"
  from sign_emits [of call_of P os cfg s]
  show "\<exists>d. proj call_of (trace (snd (sign P os cfg s))) = proj call_of (trace s) @ d"
    by auto
qed

lemma emitsD:
  assumes "emits f p es" and "p s = (r, s')"
  shows "\<exists>d. proj f (trace s') = proj f (trace s) @ d \<and> prefix d es \<and> (r = None \<longrightarrow> d = es)"
proof -
  from assms(1) obtain d where "proj f (trace (snd (p s))) = proj f (trace s) @ d"
    "prefix d es" "fst (p s) = None \<longrightarrow> d = es"
    unfolding emits_def by blast
  with assms(2) show ?thesis by auto
qed

lemma growsD:
  assumes "grows f p" and "p s = (r, s')"
  shows "\<exists>d. proj f (trace s') = proj f (trace s) @ d"
proof -
  from assms(1) obtain d where "proj f (trace (snd (p s))) = proj f (trace s) @ d"
    unfolding grows_def by blast
  with assms(2) show ?thesis by auto
qed

lemma cli_invoked_calls:
  "(\<exists>d. invoked (trace (snd (cli P os cfg None clean s))) = invoked (trace s) @ ''libs'' # d
       \<and> prefix d ((if IS_BUILD_MACHINE (environ cfg) then [''sign''] else []) @ [''archive''])
       \<and> (fst (cli P os cfg None clean s) = None
            \<longrightarrow> d = (if IS_BUILD_MACHINE (environ cfg) then [''sign''] else []) @ [''archive'']))
   \<and> (fst (cli P os cfg None clean s) = None
        \<longrightarrow> (\<exists>rest. calls (trace (snd (cli P os cfg None clean s)))
               = calls (trace s)
                 @ concat (map (variant_calls P cfg)
                     (libs_matrix (PLATFORM cfg) (IS_BUILD_MACHINE (environ cfg)) True True False False))
                 @ rest
             \<and> (\<not> IS_BUILD_MACHINE (environ cfg) \<longrightarrow> rest = [])))"
proof -
  let ?bm = "IS_BUILD_MACHINE (environ cfg)"
  let ?L = "libs P os cfg clean False False False False"
  let ?S = "if ?bm then invoke ''sign'' (sign P os cfg) else skip"
  let ?A = "invoke ''archive'' (archive P os cfg)"
  let ?R = "run_all [?S, ?A]"
  let ?s1 = "s\<lparr>trace := trace s @ [Invoke ''libs'']\<rparr>"
  let ?LC = "concat (map (variant_calls P cfg) (libs_matrix (PLATFORM cfg) ?bm True True False False))"
  let ?E = "(if ?bm then [''sign''] else []) @ [''archive'']"
  obtain r1 s2 where L: "?L ?s1 = (r1, s2)" by (cases "?L ?s1")
  obtain r3 s3 where R: "?R s2 = (r3, s3)" by (cases "?R s2")
  have k0: "cli P os cfg None clean s = run_all [invoke ''libs'' ?L, ?S, ?A] s"
    by (simp add: cli_def del: run_all.simps)
  have k1: "run_all [invoke ''libs'' ?L, ?S, ?A] s
      = (case invoke ''libs'' ?L s of
           (None, s') \<Rightarrow> ?R s'
         | (Some e, s') \<Rightarrow> (Some e, s'))"
    by (rule run_all.simps(2))
  have k2: "invoke ''libs'' ?L s = (r1, s2)"
    using L by (simp add: invoke_def)
  have cli: "cli P os cfg None clean s
      = (case r1 of None \<Rightarrow> (r3, s3) | Some e \<Rightarrow> (Some e, s2))"
    unfolding k0 k1 k2 by (cases r1) (simp_all only: R option.case prod.case)
  have matrix: "libs_matrix (PLATFORM cfg) ?bm False False False False
      = libs_matrix (PLATFORM cfg) ?bm True True False False"
    by (simp add: libs_matrix_def link_modes_def)
  \<comment> \<open>the stage libs\<close>
  have "emits invoke_of ?L []"
    using emits_libs [of invoke_of P os cfg clean False False False False] by simp
  from emitsD [OF this L] have i2: "invoked (trace s2) = invoked (trace s) @ [''libs'']"
    by (auto simp: invoked_def)
  have "emits call_of ?L ?LC"
    using emits_libs [of call_of P os cfg clean False False False False] by (simp add: matrix)
  from emitsD [OF this L] obtain dc where
    c2: "calls (trace s2) = calls (trace s) @ dc" "r1 = None \<longrightarrow> dc = ?LC"
    by (auto simp: calls_def)
  \<comment> \<open>the stages after it\<close>
  have eS: "emits invoke_of ?S (if ?bm then [''sign''] else [])"
  proof (cases ?bm)
    case True
    from emits_invoke [OF emits_sign_quiet, of "''sign''" P os cfg]
    show ?thesis using True by simp
  next
    case False
    then show ?thesis by (simp add: emits_skip)
  qed
  have eA: "emits invoke_of ?A [''archive'']"
    using emits_invoke [OF emits_archive, of invoke_of "''archive''" P os cfg] by simp
  have "emits invoke_of ?R ((if ?bm then [''sign''] else []) @ [''archive''] @ [])"
    by (intro emits_run_all_Cons emits_run_all_Nil eS eA)
  then have "emits invoke_of ?R ?E" by simp
  from emitsD [OF this R] obtain d3 where
    i3: "invoked (trace s3) = invoked (trace s2) @ d3" "prefix d3 ?E" "r3 = None \<longrightarrow> d3 = ?E"
    by (auto simp: invoked_def)
  have gA: "grows call_of ?A"
    by (rule grows_invoke) (rule emits_grows, rule emits_archive, simp)
  have gS: "grows call_of ?S"
    by (cases ?bm) (simp_all add: grows_invoke grows_sign emits_grows [OF emits_skip])
  have "grows call_of ?R"
    by (rule grows_run_all) (use gA gS in auto)
  from growsD [OF this R] obtain rest where
    c3: "calls (trace s3) = calls (trace s2) @ rest"
    by (auto simp: calls_def)
  have quiet: "rest = []" if "\<not> ?bm"
  proof -
    have "emits call_of (run_all [skip, ?A]) ([] @ [] @ [])"
      by (intro emits_run_all_Cons emits_run_all_Nil emits_skip emits_invoke [of call_of _ "[]" "''archive''", simplified]
          emits_archive) simp
    moreover have "run_all [skip, ?A] s2 = (r3, s3)" using R that by simp
    ultimately obtain d where "calls (trace s3) = calls (trace s2) @ d" "prefix d []"
      using emitsD [of call_of "run_all [skip, ?A]" "[]" s2 r3 s3] by (auto simp: calls_def)
    with c3 show ?thesis by simp
  qed
  show ?thesis
  proof (cases r1)
    case None
    have a: "invoked (trace (snd (cli P os cfg None clean s))) = invoked (trace s) @ ''libs'' # d3"
      using cli None i2 i3 by simp
    have b: "fst (cli P os cfg None clean s) = None \<longrightarrow> d3 = ?E"
      using cli None i3 by simp
    have c: "calls (trace (snd (cli P os cfg None clean s))) = calls (trace s) @ ?LC @ rest"
      using cli None c2 c3 by simp
    have p1: "\<exists>d. invoked (trace (snd (cli P os cfg None clean s))) = invoked (trace s) @ ''libs'' # d
       \<and> prefix d ?E \<and> (fst (cli P os cfg None clean s) = None \<longrightarrow> d = ?E)"
      using a b i3(2) by (intro exI [of _ d3]) simp
    have p2: "fst (cli P os cfg None clean s) = None
        \<longrightarrow> (\<exists>rest. calls (trace (snd (cli P os cfg None clean s))) = calls (trace s) @ ?LC @ rest
             \<and> (\<not> ?bm \<longrightarrow> rest = []))"
      using c quiet by (intro impI exI [of _ rest]) simp
    show ?thesis by (rule conjI [OF p1 p2])
  next
    case (Some e)
    have a: "invoked (trace (snd (cli P os cfg None clean s))) = invoked (trace s) @ ''libs'' # []"
      using cli Some i2 by simp
    have b: "fst (cli P os cfg None clean s) \<noteq> None"
      using cli Some by simp
    have p1: "\<exists>d. invoked (trace (snd (cli P os cfg None clean s))) = invoked (trace s) @ ''libs'' # d
       \<and> prefix d ?E \<and> (fst (cli P os cfg None clean s) = None \<longrightarrow> d = ?E)"
      using a b by (intro exI [of _ "[]"]) simp
    have p2: "fst (cli P os cfg None clean s) = None
        \<longrightarrow> (\<exists>rest. calls (trace (snd (cli P os cfg None clean s))) = calls (trace s) @ ?LC @ rest
             \<and> (\<not> ?bm \<longrightarrow> rest = []))"
      using b by auto
    show ?thesis by (rule conjI [OF p1 p2])
  qed
qed

lemma proj_map_Call_step_of [simp]: "proj step_of (map Call xs) = map Call xs"
  by (induction xs) simp_all

lemma cli_decomp:
  "cli P os cfg None clean s =
     (if fst (invoke ''libs'' (libs P os cfg clean False False False False) s) \<noteq> None
      then invoke ''libs'' (libs P os cfg clean False False False False) s
      else if IS_BUILD_MACHINE (environ cfg)
              \<and> fst (invoke ''sign'' (sign P os cfg) (after_libs P os cfg clean s)) \<noteq> None
      then invoke ''sign'' (sign P os cfg) (after_libs P os cfg clean s)
      else invoke ''archive'' (archive P os cfg) (after_sign P os cfg clean s))"
proof -
  let ?L = "invoke ''libs'' (libs P os cfg clean False False False False)"
  let ?S = "if IS_BUILD_MACHINE (environ cfg) then invoke ''sign'' (sign P os cfg) else skip"
  let ?A = "invoke ''archive'' (archive P os cfg)"
  obtain r1 s1 where L: "?L s = (r1, s1)" by (cases "?L s")
  obtain r2 s2 where S: "?S s1 = (r2, s2)" by (cases "?S s1")
  have al: "after_libs P os cfg clean s = s1"
    using L by (simp add: after_libs_def)
  have k0: "cli P os cfg None clean s = run_all [?L, ?S, ?A] s"
    by (simp add: cli_def del: run_all.simps)
  show ?thesis
  proof (cases r1)
    case (Some e)
    have "run_all [?L, ?S, ?A] s = (Some e, s1)"
      using L Some by simp
    with k0 L Some show ?thesis by simp
  next
    case None
    have k1: "run_all [?L, ?S, ?A] s = run_all [?S, ?A] s1"
      by (rule run_all_Cons_ok) (use L None in simp)
    show ?thesis
    proof (cases r2)
      case (Some e)
      have bm: "IS_BUILD_MACHINE (environ cfg)"
        using S Some by (auto simp: skip_def split: if_splits)
      have "run_all [?S, ?A] s1 = (Some e, s2)"
        using S Some by simp
      with k0 k1 L None S Some bm al show ?thesis by simp
    next
      case N2: None
      have k2: "run_all [?S, ?A] s1 = run_all [?A] s2"
        by (rule run_all_Cons_ok) (use S N2 in simp)
      have k3: "run_all [?A] s2 = ?A s2" by (rule run_all_single)
      have as: "after_sign P os cfg clean s = s2"
        using S al by (auto simp: after_sign_def skip_def split: if_splits)
      have sg: "IS_BUILD_MACHINE (environ cfg)
          \<Longrightarrow> fst (invoke ''sign'' (sign P os cfg) (after_libs P os cfg clean s)) = None"
        using S N2 al by simp
      show ?thesis
        unfolding k0 k1 k2 k3 as using L None sg by auto
    qed
  qed
qed

lemma cli_steps_run:
  "\<exists>d. steps (trace (snd (cli P os cfg None clean s))) = steps (trace s) @ Invoke ''libs'' # d
       \<and> prefix d (cli_steps P os cfg clean s)
       \<and> (fst (cli P os cfg None clean s) = None \<longrightarrow> d = cli_steps P os cfg clean s)"
proof -
  let ?bm = "IS_BUILD_MACHINE (environ cfg)"
  let ?Lb = "libs P os cfg clean False False False False"
  let ?L = "invoke ''libs'' ?Lb"
  let ?Si = "invoke ''sign'' (sign P os cfg)"
  let ?A = "invoke ''archive'' (archive P os cfg)"
  let ?LC = "map Call (concat (map (variant_calls P cfg)
                (libs_matrix (PLATFORM cfg) ?bm True True False False)))"
  let ?s0 = "s\<lparr>trace := trace s @ [Invoke ''libs'']\<rparr>"
  obtain r1 s1 where L: "?Lb ?s0 = (r1, s1)" by (cases "?Lb ?s0")
  have iL: "?L s = (r1, s1)" using L by (simp add: invoke_def)
  have al: "after_libs P os cfg clean s = s1" using iL by (simp add: after_libs_def)
  let ?SC = "map Call (sign_calls P os cfg (world s1))"
  let ?E = "?LC @ (if ?bm then Invoke ''sign'' # ?SC else []) @ [Invoke ''archive'']"
  have E: "cli_steps P os cfg clean s = ?E"
    by (simp add: cli_steps_def al)
  have matrix: "libs_matrix (PLATFORM cfg) ?bm False False False False
      = libs_matrix (PLATFORM cfg) ?bm True True False False"
    by (simp add: libs_matrix_def link_modes_def)
  have "emits step_of ?Lb ?LC"
    using emits_libs [of step_of P os cfg clean False False False False] by (simp add: matrix)
  from emitsD [OF this L] obtain dl where
    dl: "steps (trace s1) = steps (trace s) @ Invoke ''libs'' # dl" "prefix dl ?LC"
        "r1 = None \<longrightarrow> dl = ?LC"
    by (auto simp: steps_def)
  \<comment> \<open>the archive stage adds its label and nothing else\<close>
  have eA: "emits step_of ?A [Invoke ''archive'']"
    using emits_invoke [OF emits_archive, of step_of "''archive''" P os cfg] by simp
  have arch: "steps (trace (snd (?A t))) = steps (trace t) @ [Invoke ''archive'']" for t
  proof -
    obtain r u where A: "?A t = (r, u)" by (cases "?A t")
    let ?t0 = "t\<lparr>trace := trace t @ [Invoke ''archive'']\<rparr>"
    have "archive P os cfg ?t0 = (r, u)" using A by (simp add: invoke_def)
    from emitsD [OF emits_archive this, of step_of] A show ?thesis
      by (auto simp: steps_def)
  qed
  show ?thesis
  proof (cases r1)
    case (Some e)
    have c: "cli P os cfg None clean s = (r1, s1)"
      using cli_decomp [of P os cfg clean s] iL Some by simp
    have "prefix dl ?E" using dl(2) by (rule prefix_prefix)
    with c dl(1) Some E show ?thesis by (intro exI [of _ dl]) simp
  next
    case None
    with dl have dlq: "dl = ?LC" by simp
    show ?thesis
    proof (cases ?bm)
      case False
      have as: "after_sign P os cfg clean s = s1"
        using False al by (simp add: after_sign_def)
      have c: "cli P os cfg None clean s = ?A s1"
        using cli_decomp [of P os cfg clean s] iL None False as by simp
      have "steps (trace (snd (cli P os cfg None clean s)))
          = steps (trace s) @ Invoke ''libs'' # ?E"
        unfolding c arch dl(1) dlq using False by simp
      then show ?thesis unfolding E by (intro exI [of _ ?E]) simp
    next
      case True
      let ?s1' = "s1\<lparr>trace := trace s1 @ [Invoke ''sign'']\<rparr>"
      obtain r2 s2 where S: "sign P os cfg ?s1' = (r2, s2)" by (cases "sign P os cfg ?s1'")
      have iS: "?Si s1 = (r2, s2)" using S by (simp add: invoke_def)
      from sign_emits [of step_of P os cfg ?s1'] S obtain ds where
        ds: "steps (trace s2) = steps (trace s1) @ Invoke ''sign'' # ds" "prefix ds ?SC"
            "r2 = None \<longrightarrow> ds = ?SC"
        by (auto simp: steps_def)
      show ?thesis
      proof (cases r2)
        case (Some e)
        have c: "cli P os cfg None clean s = (r2, s2)"
          using cli_decomp [of P os cfg clean s] iL None True iS al Some by simp
        have st: "steps (trace (snd (cli P os cfg None clean s)))
            = steps (trace s) @ Invoke ''libs'' # (?LC @ Invoke ''sign'' # ds)"
          unfolding c using ds(1) dl(1) dlq by simp
        have "prefix (Invoke ''sign'' # ds) (Invoke ''sign'' # ?SC)" using ds(2) by simp
        then have "prefix (Invoke ''sign'' # ds) ((Invoke ''sign'' # ?SC) @ [Invoke ''archive''])"
          by (rule prefix_prefix)
        then have "prefix (?LC @ Invoke ''sign'' # ds) ?E"
          using True by simp
        with st c Some E show ?thesis
          by (intro exI [of _ "?LC @ Invoke ''sign'' # ds"]) simp
      next
        case N2: None
        with ds have dsq: "ds = ?SC" by simp
        have as: "after_sign P os cfg clean s = s2"
          using True al iS by (simp add: after_sign_def)
        have c: "cli P os cfg None clean s = ?A s2"
          using cli_decomp [of P os cfg clean s] iL None True iS al N2 as by simp
        have "steps (trace (snd (cli P os cfg None clean s)))
            = steps (trace s) @ Invoke ''libs'' # ?E"
          unfolding c arch ds(1) dsq dl(1) dlq using True by simp
        then show ?thesis unfolding E by (intro exI [of _ ?E]) simp
      qed
    qed
  qed
qed


text \<open>
  C3. The default entry point enters \<open>libs\<close> first, in every run; what it enters after
  that is an initial segment of \<open>sign\<close> (present exactly when the run is unattended)
  followed by \<open>archive\<close>, and all of it when the run raises nothing, so \<open>archive\<close>
  is last. A run that raises nothing has issued the build commands of every variant of
  the full matrix, both link modes, before anything else, and nothing else when attended.
  The steps of a run are, after the label of \<open>libs\<close>, an initial segment of the build
  commands, then in an unattended run the label of \<open>sign\<close> and the signing commands for
  the tree \<open>libs\<close> left, then the label of \<open>archive\<close>; all of them when the run
  raises nothing. The run is the run of \<open>libs\<close> when that raises; else, unattended, the
  run of \<open>sign\<close> after it when that raises; else the run of \<open>archive\<close> after them:
  the state \<open>cli\<close> leaves, with its archive, is the one \<open>archive\<close> leaves.
\<close>

theorem cli_stage_order:
  "((\<exists>d. invoked (trace (snd (cli P os cfg None clean s))) = invoked (trace s) @ ''libs'' # d
       \<and> prefix d ((if IS_BUILD_MACHINE (environ cfg) then [''sign''] else []) @ [''archive''])
       \<and> (fst (cli P os cfg None clean s) = None
            \<longrightarrow> d = (if IS_BUILD_MACHINE (environ cfg) then [''sign''] else []) @ [''archive'']))
   \<and> (fst (cli P os cfg None clean s) = None
        \<longrightarrow> (\<exists>rest. calls (trace (snd (cli P os cfg None clean s)))
               = calls (trace s)
                 @ concat (map (variant_calls P cfg)
                     (libs_matrix (PLATFORM cfg) (IS_BUILD_MACHINE (environ cfg)) True True False False))
                 @ rest
             \<and> (\<not> IS_BUILD_MACHINE (environ cfg) \<longrightarrow> rest = []))))
   \<and> (\<exists>d. steps (trace (snd (cli P os cfg None clean s))) = steps (trace s) @ Invoke ''libs'' # d
         \<and> prefix d (cli_steps P os cfg clean s)
         \<and> (fst (cli P os cfg None clean s) = None \<longrightarrow> d = cli_steps P os cfg clean s))
   \<and> cli P os cfg None clean s =
       (if fst (invoke ''libs'' (libs P os cfg clean False False False False) s) \<noteq> None
        then invoke ''libs'' (libs P os cfg clean False False False False) s
        else if IS_BUILD_MACHINE (environ cfg)
                \<and> fst (invoke ''sign'' (sign P os cfg) (after_libs P os cfg clean s)) \<noteq> None
        then invoke ''sign'' (sign P os cfg) (after_libs P os cfg clean s)
        else invoke ''archive'' (archive P os cfg) (after_sign P os cfg clean s))"
  by (rule conjI [OF cli_invoked_calls conjI [OF cli_steps_run cli_decomp]])

subsection \<open>Joining and splitting at a separator\<close>

lemma split_on_nonempty: "split_on c s \<noteq> []"
  by (induction s) (simp_all split: list.splits)

lemma split_on_no_sep: "c \<notin> set n \<Longrightarrow> split_on c n = [n]"
  by (induction n) auto

lemma split_on_append_sep: "c \<notin> set a \<Longrightarrow> split_on c (a @ c # b) = a # split_on c b"
  by (induction a) auto

lemma str_join_Cons: "xs \<noteq> [] \<Longrightarrow> str_join s (x # xs) = x @ s @ str_join s xs"
  by (cases xs) simp_all

lemma str_join_snoc: "xs \<noteq> [] \<Longrightarrow> str_join s (xs @ [n]) = str_join s xs @ s @ n"
proof (induction xs)
  case Nil
  then show ?case by simp
next
  case (Cons x xs)
  show ?case
  proof (cases xs)
    case Nil
    then show ?thesis by simp
  next
    case (Cons y ys)
    with Cons.IH have "str_join s (xs @ [n]) = str_join s xs @ s @ n" by simp
    then show ?thesis by (simp add: str_join_Cons Cons)
  qed
qed

lemma split_str_join:
  assumes "xs \<noteq> []" and "\<forall>x \<in> set xs. c \<notin> set x"
  shows "split_on c (str_join [c] xs) = xs"
  using assms
proof (induction xs)
  case Nil
  then show ?case by simp
next
  case (Cons x xs)
  show ?case
  proof (cases xs)
    case Nil
    with Cons.prems show ?thesis by (simp add: split_on_no_sep)
  next
    case (Cons y ys)
    then have "str_join [c] (x # xs) = x @ c # str_join [c] xs" by simp
    moreover have "split_on c (str_join [c] xs) = xs"
      using Cons.IH Cons.prems Cons by simp
    ultimately show ?thesis
      using Cons.prems by (simp add: split_on_append_sep)
  qed
qed

lemma str_join_ends:
  assumes "xs \<noteq> []" and "\<forall>x \<in> set xs. x \<noteq> []"
  shows "str_join [c] xs \<noteq> [] \<and> hd (str_join [c] xs) = hd (hd xs)
         \<and> last (str_join [c] xs) = last (last xs)"
  using assms
proof (induction xs)
  case Nil
  then show ?case by simp
next
  case (Cons x xs)
  have x: "x \<noteq> []" using Cons.prems by simp
  show ?case
  proof (cases xs)
    case Nil
    with x show ?thesis by simp
  next
    case (Cons y ys)
    with Cons.IH Cons.prems have "str_join [c] xs \<noteq> []"
      "last (str_join [c] xs) = last (last xs)" by simp_all
    with x Cons show ?thesis by (simp add: str_join_Cons)
  qed
qed

lemma char_str_join:
  assumes "\<forall>x \<in> set xs. c \<notin> set x" and "c \<notin> set s"
  shows "c \<notin> set (str_join s xs)"
  using assms by (induction s xs rule: str_join.induct) auto

lemma map_str_join:
  "map f (str_join s xs) = str_join (map f s) (map (map f) xs)"
  by (induction s xs rule: str_join.induct) simp_all


text \<open>
  A component that is not empty and holds no separator; its first and last characters are
  no separators either.
\<close>

lemma comp_ends:
  assumes "x \<noteq> []" and "c \<notin> set x"
  shows "hd x \<noteq> c" and "last x \<noteq> c"
  using assms by (metis hd_in_set, metis last_in_set)

subsection \<open>The path functions of POSIX on the paths of a walk\<close>

lemma posix_join_snoc:
  assumes "xs \<noteq> []" and "\<forall>x \<in> set xs. x \<noteq> [] \<and> CHR ''/'' \<notin> set x"
    and "n \<noteq> []" and "CHR ''/'' \<notin> set n"
  shows "posix_join (sj xs) n = sj (xs @ [n])"
proof -
  have ne: "\<forall>x \<in> set xs. x \<noteq> []" using assms(2) by simp
  have l: "last xs \<noteq> []" "CHR ''/'' \<notin> set (last xs)"
    using assms(1,2) by simp_all
  from str_join_ends [OF assms(1) ne, of "CHR ''/''"] comp_ends(2) [OF l]
  have "sj xs \<noteq> []" "last (sj xs) \<noteq> CHR ''/''" by simp_all
  moreover have "\<not> startswith n ''/''"
    using assms(3,4) by (cases n) (auto simp: startswith_def)
  ultimately show ?thesis
    using assms(1) by (simp add: posix_join_def str_join_snoc)
qed

lemma posix_join_Cons:
  assumes "xs \<noteq> []" and "\<forall>x \<in> set xs. x \<noteq> [] \<and> CHR ''/'' \<notin> set x"
    and "a \<noteq> []" and "CHR ''/'' \<notin> set a"
  shows "posix_join a (sj xs) = sj (a # xs)"
proof -
  have ne: "\<forall>x \<in> set xs. x \<noteq> []" using assms(2) by simp
  have h: "hd xs \<noteq> []" "CHR ''/'' \<notin> set (hd xs)"
    using assms(1,2) by simp_all
  from str_join_ends [OF assms(1) ne, of "CHR ''/''"] comp_ends(1) [OF h]
  have "sj xs \<noteq> []" "hd (sj xs) \<noteq> CHR ''/''" by simp_all
  then have "\<not> startswith (sj xs) ''/''"
    by (cases "sj xs") (simp_all add: startswith_def)
  moreover have "last a \<noteq> CHR ''/''"
    using assms(3,4) by (metis last_in_set)
  ultimately show ?thesis
    using assms(1,3) by (simp add: posix_join_def str_join_Cons)
qed

lemma foldl_norm_step:
  assumes "\<forall>x \<in> set xs. x \<noteq> [] \<and> x \<noteq> ''..''"
  shows "foldl (norm_step k) acc xs = acc @ filter (\<lambda>c. c \<noteq> ''.'') xs"
  using assms by (induction xs arbitrary: acc) (simp_all add: norm_step_def)

lemma posix_normpath_sj:
  assumes ne: "xs \<noteq> []" and nice: "\<forall>x \<in> set xs. x \<noteq> [] \<and> x \<noteq> ''..'' \<and> CHR ''/'' \<notin> set x"
    and keep: "filter (\<lambda>c. c \<noteq> ''.'') xs \<noteq> []"
  shows "posix_normpath (sj xs) = sj (filter (\<lambda>c. c \<noteq> ''.'') xs)"
proof -
  have nee: "\<forall>x \<in> set xs. x \<noteq> []" using nice by simp
  have h: "hd xs \<noteq> []" "CHR ''/'' \<notin> set (hd xs)" using ne nice by simp_all
  from str_join_ends [OF ne nee, of "CHR ''/''"] comp_ends(1) [OF h]
  have e: "sj xs \<noteq> []" "hd (sj xs) \<noteq> CHR ''/''" by simp_all
  then have ns: "\<not> startswith (sj xs) ''/''"
    by (cases "sj xs") (simp_all add: startswith_def)
  have sp: "split_on CHR ''/'' (sj xs) = xs"
    using split_str_join [OF ne, of "CHR ''/''"] nice by simp
  have fo: "foldl (norm_step 0) [] xs = filter (\<lambda>c. c \<noteq> ''.'') xs"
    using foldl_norm_step [of xs 0 "[]"] nice by simp
  have "\<forall>x \<in> set (filter (\<lambda>c. c \<noteq> ''.'') xs). x \<noteq> []"
    using nice by simp
  from str_join_ends [OF keep this, of "CHR ''/''"]
  have "sj (filter (\<lambda>c. c \<noteq> ''.'') xs) \<noteq> []" by simp
  then show ?thesis
    using e ns by (simp add: posix_normpath_def sp fo Let_def)
qed

lemma zip_arcname_posix:
  assumes ne: "xs \<noteq> []"
    and nice: "\<forall>x \<in> set xs. x \<noteq> [] \<and> x \<noteq> ''..'' \<and> x \<noteq> ''.'' \<and> CHR ''/'' \<notin> set x \<and> CHR 0x00 \<notin> set x"
  shows "zip_arcname posixpath (sj xs) = sj xs"
proof -
  have f: "filter (\<lambda>c. c \<noteq> ''.'') xs = xs" using nice by (simp add: filter_id_conv)
  have n: "posix_normpath (sj xs) = sj xs"
    using posix_normpath_sj [of xs] ne nice f by simp
  have nee: "\<forall>x \<in> set xs. x \<noteq> []" using nice by simp
  have h: "hd xs \<noteq> []" "CHR ''/'' \<notin> set (hd xs)" using ne nice by simp_all
  from str_join_ends [OF ne nee, of "CHR ''/''"] comp_ends(1) [OF h]
  have e: "sj xs \<noteq> []" "hd (sj xs) \<noteq> CHR ''/''" by simp_all
  then have d: "dropWhile (\<lambda>c. c = CHR ''/'') (sj xs) = sj xs"
    by (cases "sj xs") simp_all
  have z: "CHR 0x00 \<notin> set (sj xs)"
    using nice by (intro char_str_join) simp_all
  have t: "takeWhile (\<lambda>c. c \<noteq> CHR 0x00) (sj xs) = sj xs"
    using z by (auto simp: takeWhile_eq_all_conv)
  have m: "map (\<lambda>c. if c = CHR ''/'' then CHR ''/'' else c) (sj xs) = sj xs"
    by (simp add: map_idI)
  show ?thesis
    by (simp add: zip_arcname_def posixpath_def n d m t)
qed

lemma path_laws_posix: "path_laws posixpath pf"
  unfolding path_laws_def
proof (intro allI impI)
  fix ds n
  assume a: "(\<forall>d \<in> set ds. wf_name pf d) \<and> wf_name pf n"
  then have ds: "\<forall>d \<in> set ds. wf_name pf d" and n: "wf_name pf n" by simp_all
  have dp: "dpath posixpath xs = sj (''.'' # xs)" for xs
    by (simp add: dpath_def posixpath_def)
  have c1: "\<forall>x \<in> set (''.'' # ds). x \<noteq> [] \<and> CHR ''/'' \<notin> set x"
    using ds by (simp add: wf_name_def)
  have n1: "n \<noteq> []" "CHR ''/'' \<notin> set n" using n by (simp_all add: wf_name_def)
  have j1: "posix_join (sj (''.'' # ds)) n = sj (''.'' # ds @ [n])"
    using posix_join_snoc [of "''.'' # ds" n] c1 n1 by simp
  have c2: "\<forall>x \<in> set (''.'' # ds @ [n]). x \<noteq> [] \<and> CHR ''/'' \<notin> set x"
    using c1 n1 by simp
  have j2: "posix_join ''discord-rpc'' (sj (''.'' # ds @ [n])) = sj (''discord-rpc'' # ''.'' # ds @ [n])"
    using posix_join_Cons [of "''.'' # ds @ [n]" "''discord-rpc''"] c2 by simp
  have nice_all: "\<forall>x \<in> set (''discord-rpc'' # ''.'' # ds @ [n]).
      x \<noteq> [] \<and> x \<noteq> ''..'' \<and> CHR ''/'' \<notin> set x"
    using ds n by (auto simp: wf_name_def)
  have flt: "filter (\<lambda>c. c \<noteq> ''.'') (''discord-rpc'' # ''.'' # ds @ [n]) = ''discord-rpc'' # ds @ [n]"
    using ds n by (simp add: filter_id_conv wf_name_def)
  have np: "posix_normpath (sj (''discord-rpc'' # ''.'' # ds @ [n])) = sj (''discord-rpc'' # ds @ [n])"
    using posix_normpath_sj [of "''discord-rpc'' # ''.'' # ds @ [n]"] nice_all flt by simp
  have z: "zip_arcname posixpath (sj (''discord-rpc'' # ds @ [n])) = sj (''discord-rpc'' # ds @ [n])"
    using ds n by (intro zip_arcname_posix) (auto simp: wf_name_def)
  have J: "join posixpath (dpath posixpath ds) n = dpath posixpath (ds @ [n])"
    unfolding dp using j1 by (simp add: join_def posixpath_def)
  have A: "arcname_of posixpath (dpath posixpath ds, n) = sj (''discord-rpc'' # ds @ [n])"
  proof -
    have "arcname_of posixpath (dpath posixpath ds, n)
        = zip_arcname posixpath (posix_normpath (posix_join ''discord-rpc''
            (posix_join (sj (''.'' # ds)) n)))"
      unfolding dp by (simp add: arcname_of_def join_def posixpath_def)
    then show ?thesis unfolding j1 j2 np z .
  qed
  have R: "read_file posixpath tree (dpath posixpath (ds @ [n])) = read_comps tree (ds @ [n])" for tree
  proof -
    have sp: "split_on CHR ''/'' (sj (''.'' # ds @ [n])) = ''.'' # ds @ [n]"
      using split_str_join [of "''.'' # ds @ [n]" "CHR ''/''"] c2 by simp
    have nee: "\<forall>x \<in> set (''.'' # ds @ [n]). x \<noteq> []" using c2 by simp
    from str_join_ends [OF _ nee, of "CHR ''/''"]
    have e: "sj (''.'' # ds @ [n]) \<noteq> []" "hd (sj (''.'' # ds @ [n])) = CHR ''.''" by simp_all
    have id: "map (\<lambda>c. if is_sep posixpath c then sep posixpath else c) p = p" for p
      by (rule map_idI) (simp add: is_sep_def posixpath_def)
    have "\<not> is_sep posixpath (hd (sj (''.'' # ds @ [n])))"
      unfolding e(2) by (simp add: is_sep_def posixpath_def)
    moreover have "fst (splitdrive posixpath p) = []" "sep posixpath = CHR ''/''" for p
      by (simp_all add: posixpath_def)
    ultimately show ?thesis
      unfolding dp read_file_def id using sp by simp
  qed
  show "join posixpath (dpath posixpath ds) n = dpath posixpath (ds @ [n])
      \<and> arcname_of posixpath (dpath posixpath ds, n) = sj (''discord-rpc'' # ds @ [n])
      \<and> (\<forall>tree. read_file posixpath tree (dpath posixpath (ds @ [n])) = read_comps tree (ds @ [n]))"
    using J A R by blast
qed

subsection \<open>The path functions of Windows on the paths of a walk\<close>

lemma backslash_neq [simp]:
  "backslash \<noteq> CHR ''/''" "backslash \<noteq> CHR '':''" "backslash \<noteq> CHR ''.''" "backslash \<noteq> CHR 0x00"
  "CHR ''/'' \<noteq> backslash" "CHR '':'' \<noteq> backslash" "CHR ''.'' \<noteq> backslash" "CHR 0x00 \<noteq> backslash"
  by (simp_all add: backslash_def)

lemma nt_nodrive:
  assumes "CHR '':'' \<notin> set p" and "p \<noteq> [] \<Longrightarrow> hd p \<notin> nt_seps"
  shows "nt_splitdrive p = ([], p)"
proof (cases p)
  case Nil
  then show ?thesis by (simp add: nt_splitdrive_def)
next
  case (Cons a q)
  show ?thesis
  proof (cases q)
    case Nil
    with Cons show ?thesis by (simp add: nt_splitdrive_def)
  next
    case (Cons b r)
    have a: "a \<noteq> backslash" "a \<noteq> CHR ''/''"
      using assms(2) \<open>p = a # q\<close> by (simp_all add: nt_seps_def)
    have b: "b \<noteq> CHR '':''"
      using assms(1) \<open>p = a # q\<close> Cons by auto
    show ?thesis
      using a b \<open>p = a # q\<close> Cons
      by (simp add: nt_splitdrive_def replace_def Let_def)
  qed
qed

lemma nt_join_two:
  assumes "nt_splitdrive a = ([], a)" and "a \<noteq> []" and "last a \<notin> nt_seps"
    and "nt_splitdrive n = ([], n)" and "n \<noteq> []" and "hd n \<notin> nt_seps"
  shows "join ntpath a n = a @ backslash # n"
  using assms
  by (simp add: join_def ntpath_def nt_joinl_def nt_join_step_def Let_def)

text \<open>
  A list of components none of which is empty or holds a separator or a colon, joined by
  backslashes: it has no drive, and it begins and ends with no separator.
\<close>

lemma nt_joined:
  assumes ne: "xs \<noteq> []"
    and nice: "\<forall>x \<in> set xs. x \<noteq> [] \<and> backslash \<notin> set x \<and> CHR ''/'' \<notin> set x \<and> CHR '':'' \<notin> set x"
  shows "str_join [backslash] xs \<noteq> []"
    and "hd (str_join [backslash] xs) \<notin> nt_seps"
    and "last (str_join [backslash] xs) \<notin> nt_seps"
    and "CHR '':'' \<notin> set (str_join [backslash] xs)"
    and "CHR ''/'' \<notin> set (str_join [backslash] xs)"
    and "nt_splitdrive (str_join [backslash] xs) = ([], str_join [backslash] xs)"
proof -
  have nee: "\<forall>x \<in> set xs. x \<noteq> []" using nice by simp
  have h: "hd xs \<noteq> []" "backslash \<notin> set (hd xs)" "CHR ''/'' \<notin> set (hd xs)"
    and l: "last xs \<noteq> []" "backslash \<notin> set (last xs)" "CHR ''/'' \<notin> set (last xs)"
    using ne nice by simp_all
  note e = str_join_ends [OF ne nee, of backslash]
  show 1: "str_join [backslash] xs \<noteq> []" using e by simp
  show 2: "hd (str_join [backslash] xs) \<notin> nt_seps"
    using e comp_ends(1) [OF h(1,2)] comp_ends(1) [OF h(1,3)] by (simp add: nt_seps_def)
  show "last (str_join [backslash] xs) \<notin> nt_seps"
    using e comp_ends(2) [OF l(1,2)] comp_ends(2) [OF l(1,3)] by (simp add: nt_seps_def)
  show 4: "CHR '':'' \<notin> set (str_join [backslash] xs)"
    using nice by (intro char_str_join) simp_all
  show "CHR ''/'' \<notin> set (str_join [backslash] xs)"
    using nice by (intro char_str_join) simp_all
  show "nt_splitdrive (str_join [backslash] xs) = ([], str_join [backslash] xs)"
    using 4 2 by (rule nt_nodrive)
qed

lemma nt_join_snoc:
  assumes ne: "xs \<noteq> []"
    and nice: "\<forall>x \<in> set (xs @ [n]). x \<noteq> [] \<and> backslash \<notin> set x \<and> CHR ''/'' \<notin> set x \<and> CHR '':'' \<notin> set x"
  shows "join ntpath (str_join [backslash] xs) n = str_join [backslash] (xs @ [n])"
proof -
  have nx: "\<forall>x \<in> set xs. x \<noteq> [] \<and> backslash \<notin> set x \<and> CHR ''/'' \<notin> set x \<and> CHR '':'' \<notin> set x"
    using nice by simp
  have nn: "\<forall>x \<in> set [n]. x \<noteq> [] \<and> backslash \<notin> set x \<and> CHR ''/'' \<notin> set x \<and> CHR '':'' \<notin> set x"
    using nice by simp
  note a = nt_joined [OF ne nx]
  have b: "n \<noteq> []" "hd n \<notin> nt_seps" "nt_splitdrive n = ([], n)"
    using nt_joined(1,2,6) [OF _ nn] by simp_all
  have "join ntpath (str_join [backslash] xs) n = str_join [backslash] xs @ backslash # n"
    by (rule nt_join_two [OF a(6) a(1) a(3) b(3) b(1) b(2)])
  then show ?thesis using ne by (simp add: str_join_snoc)
qed

lemma nt_join_Cons:
  assumes ne: "xs \<noteq> []"
    and nice: "\<forall>x \<in> set (a # xs). x \<noteq> [] \<and> backslash \<notin> set x \<and> CHR ''/'' \<notin> set x \<and> CHR '':'' \<notin> set x"
  shows "join ntpath a (str_join [backslash] xs) = str_join [backslash] (a # xs)"
proof -
  have nx: "\<forall>x \<in> set xs. x \<noteq> [] \<and> backslash \<notin> set x \<and> CHR ''/'' \<notin> set x \<and> CHR '':'' \<notin> set x"
    using nice by simp
  have na: "\<forall>x \<in> set [a]. x \<noteq> [] \<and> backslash \<notin> set x \<and> CHR ''/'' \<notin> set x \<and> CHR '':'' \<notin> set x"
    using nice by simp
  note b = nt_joined [OF ne nx]
  have a: "a \<noteq> []" "last a \<notin> nt_seps" "nt_splitdrive a = ([], a)"
    using nt_joined(1,3,6) [OF _ na] by simp_all
  have "join ntpath a (str_join [backslash] xs) = a @ backslash # str_join [backslash] xs"
    by (rule nt_join_two [OF a(3) a(1) a(2) b(6) b(1) b(2)])
  then show ?thesis using ne by (simp add: str_join_Cons)
qed

lemma foldl_nt_norm_step:
  assumes "\<forall>x \<in> set xs. x \<noteq> [] \<and> x \<noteq> ''..''"
  shows "foldl (nt_norm_step pre) acc xs = acc @ filter (\<lambda>c. c \<noteq> ''.'') xs"
  using assms by (induction xs arbitrary: acc) (simp_all add: nt_norm_step_def)

lemma replace_absent: "a \<notin> set s \<Longrightarrow> replace a b s = s"
  unfolding replace_def by (rule map_idI) auto

lemma nt_normpath_joined:
  assumes ne: "xs \<noteq> []"
    and nice: "\<forall>x \<in> set xs. x \<noteq> [] \<and> x \<noteq> ''..'' \<and> backslash \<notin> set x \<and> CHR ''/'' \<notin> set x
                 \<and> CHR '':'' \<notin> set x"
    and keep: "filter (\<lambda>c. c \<noteq> ''.'') xs \<noteq> []"
  shows "nt_normpath (str_join [backslash] xs) = str_join [backslash] (filter (\<lambda>c. c \<noteq> ''.'') xs)"
proof -
  let ?p = "str_join [backslash] xs"
  have nx: "\<forall>x \<in> set xs. x \<noteq> [] \<and> backslash \<notin> set x \<and> CHR ''/'' \<notin> set x \<and> CHR '':'' \<notin> set x"
    using nice by simp
  note a = nt_joined [OF ne nx]
  have r: "replace CHR ''/'' backslash ?p = ?p"
    by (rule replace_absent) (rule a(5))
  have ns: "\<not> startswith ?p [backslash]"
    using a(1,2) by (cases ?p) (simp_all add: startswith_def nt_seps_def)
  have sp: "split_on backslash ?p = xs"
    using split_str_join [OF ne, of backslash] nice by simp
  have fo: "foldl (nt_norm_step []) [] xs = filter (\<lambda>c. c \<noteq> ''.'') xs"
    using foldl_nt_norm_step [of xs "[]" "[]"] nice by simp
  show ?thesis
    using keep by (simp add: nt_normpath_def r a(6) ns sp fo Let_def)
qed

lemma zip_arcname_nt:
  assumes ne: "xs \<noteq> []"
    and nice: "\<forall>x \<in> set xs. x \<noteq> [] \<and> x \<noteq> ''..'' \<and> x \<noteq> ''.'' \<and> backslash \<notin> set x
                 \<and> CHR ''/'' \<notin> set x \<and> CHR '':'' \<notin> set x \<and> CHR 0x00 \<notin> set x"
  shows "zip_arcname ntpath (str_join [backslash] xs) = sj xs"
proof -
  let ?p = "str_join [backslash] xs"
  have nx: "\<forall>x \<in> set xs. x \<noteq> [] \<and> backslash \<notin> set x \<and> CHR ''/'' \<notin> set x \<and> CHR '':'' \<notin> set x"
    using nice by simp
  note a = nt_joined [OF ne nx]
  have f: "filter (\<lambda>c. c \<noteq> ''.'') xs = xs" using nice by (simp add: filter_id_conv)
  have n: "nt_normpath ?p = ?p"
    using nt_normpath_joined [of xs] ne nice f by simp
  have d: "dropWhile (\<lambda>c. c = backslash \<or> c = CHR ''/'') ?p = ?p"
    using a(1,2) by (cases ?p) (simp_all add: nt_seps_def)
  have "map (\<lambda>c. if c = backslash then CHR ''/'' else c) ?p
      = str_join (map (\<lambda>c. if c = backslash then CHR ''/'' else c) [backslash])
          (map (map (\<lambda>c. if c = backslash then CHR ''/'' else c)) xs)"
    by (rule map_str_join)
  also have "map (map (\<lambda>c. if c = backslash then CHR ''/'' else c)) xs = xs"
  proof (rule map_idI)
    fix x assume "x \<in> set xs"
    with nice have "backslash \<notin> set x" by simp
    then show "map (\<lambda>c. if c = backslash then CHR ''/'' else c) x = x"
      by (intro map_idI) auto
  qed
  finally have m: "map (\<lambda>c. if c = backslash then CHR ''/'' else c) ?p = sj xs" by simp
  have z: "CHR 0x00 \<notin> set (sj xs)"
    using nice by (intro char_str_join) simp_all
  have t: "takeWhile (\<lambda>c. c \<noteq> CHR 0x00) (sj xs) = sj xs"
    using z by (auto simp: takeWhile_eq_all_conv)
  show ?thesis
    by (simp add: zip_arcname_def ntpath_def a(6) n d m t)
qed

lemma wf_name_win:
  assumes "wf_name Win n"
  shows "n \<noteq> [] \<and> n \<noteq> ''.'' \<and> n \<noteq> ''..'' \<and> backslash \<notin> set n \<and> CHR ''/'' \<notin> set n
         \<and> CHR '':'' \<notin> set n \<and> CHR 0x00 \<notin> set n"
  using assms by (simp add: wf_name_def)

lemma literal_comps:
  "backslash \<notin> set ''discord-rpc''" "backslash \<notin> set ''.''"
  by (simp_all add: backslash_def)

lemma path_laws_nt: "path_laws ntpath Win"
  unfolding path_laws_def
proof (intro allI impI)
  fix ds n
  assume a: "(\<forall>d \<in> set ds. wf_name Win d) \<and> wf_name Win n"
  then have ds: "\<forall>d \<in> set ds. wf_name Win d" and n: "wf_name Win n" by simp_all
  have dsn: "\<forall>x \<in> set (ds @ [n]). x \<noteq> [] \<and> x \<noteq> ''.'' \<and> x \<noteq> ''..'' \<and> backslash \<notin> set x
      \<and> CHR ''/'' \<notin> set x \<and> CHR '':'' \<notin> set x \<and> CHR 0x00 \<notin> set x"
  proof
    fix x assume "x \<in> set (ds @ [n])"
    then have "wf_name Win x" using ds n by auto
    then show "x \<noteq> [] \<and> x \<noteq> ''.'' \<and> x \<noteq> ''..'' \<and> backslash \<notin> set x
      \<and> CHR ''/'' \<notin> set x \<and> CHR '':'' \<notin> set x \<and> CHR 0x00 \<notin> set x"
      by (rule wf_name_win)
  qed
  have dp: "dpath ntpath xs = str_join [backslash] (''.'' # xs)" for xs
    by (simp add: dpath_def ntpath_def)
  have c3: "\<forall>x \<in> set (''discord-rpc'' # ds @ [n]).
      x \<noteq> [] \<and> x \<noteq> ''..'' \<and> x \<noteq> ''.'' \<and> backslash \<notin> set x \<and> CHR ''/'' \<notin> set x
      \<and> CHR '':'' \<notin> set x \<and> CHR 0x00 \<notin> set x"
    using dsn literal_comps by simp
  have c2: "\<forall>x \<in> set (''discord-rpc'' # ''.'' # ds @ [n]).
      x \<noteq> [] \<and> x \<noteq> ''..'' \<and> backslash \<notin> set x \<and> CHR ''/'' \<notin> set x \<and> CHR '':'' \<notin> set x"
    using dsn literal_comps by simp
  have c1: "\<forall>x \<in> set (''.'' # ds @ [n]).
      x \<noteq> [] \<and> backslash \<notin> set x \<and> CHR ''/'' \<notin> set x \<and> CHR '':'' \<notin> set x"
    using c2 by simp
  have c0: "\<forall>x \<in> set ((''.'' # ds) @ [n]).
      x \<noteq> [] \<and> backslash \<notin> set x \<and> CHR ''/'' \<notin> set x \<and> CHR '':'' \<notin> set x"
    using c1 by simp
  have c4: "\<forall>x \<in> set (''discord-rpc'' # ''.'' # ds @ [n]).
      x \<noteq> [] \<and> backslash \<notin> set x \<and> CHR ''/'' \<notin> set x \<and> CHR '':'' \<notin> set x"
    using c2 by simp
  have j1: "join ntpath (str_join [backslash] (''.'' # ds)) n = str_join [backslash] ((''.'' # ds) @ [n])"
    by (rule nt_join_snoc [OF _ c0]) simp
  have j2: "join ntpath ''discord-rpc'' (str_join [backslash] (''.'' # ds @ [n]))
        = str_join [backslash] (''discord-rpc'' # ''.'' # ds @ [n])"
    by (rule nt_join_Cons [OF _ c4]) simp
  have flt: "filter (\<lambda>c. c \<noteq> ''.'') (''discord-rpc'' # ''.'' # ds @ [n]) = ''discord-rpc'' # ds @ [n]"
  proof -
    have "filter (\<lambda>c. c \<noteq> ''.'') (ds @ [n]) = ds @ [n]"
      using dsn by (simp only: filter_id_conv) simp
    then show ?thesis by simp
  qed
  have np: "nt_normpath (str_join [backslash] (''discord-rpc'' # ''.'' # ds @ [n]))
      = str_join [backslash] (''discord-rpc'' # ds @ [n])"
  proof -
    have "nt_normpath (str_join [backslash] (''discord-rpc'' # ''.'' # ds @ [n]))
      = str_join [backslash] (filter (\<lambda>c. c \<noteq> ''.'') (''discord-rpc'' # ''.'' # ds @ [n]))"
      by (rule nt_normpath_joined [OF _ c2]) (simp_all only: flt, simp_all)
    then show ?thesis by (simp only: flt)
  qed
  have z: "zip_arcname ntpath (str_join [backslash] (''discord-rpc'' # ds @ [n]))
      = sj (''discord-rpc'' # ds @ [n])"
    by (rule zip_arcname_nt [OF _ c3]) simp
  have J: "join ntpath (dpath ntpath ds) n = dpath ntpath (ds @ [n])"
    unfolding dp using j1 by simp
  have A: "arcname_of ntpath (dpath ntpath ds, n) = sj (''discord-rpc'' # ds @ [n])"
  proof -
    have "arcname_of ntpath (dpath ntpath ds, n)
        = zip_arcname ntpath (nt_normpath (join ntpath ''discord-rpc''
            (join ntpath (str_join [backslash] (''.'' # ds)) n)))"
      unfolding dp arcname_of_def fst_conv snd_conv by (simp add: ntpath_def)
    also have "\<dots> = zip_arcname ntpath (nt_normpath (join ntpath ''discord-rpc''
            (str_join [backslash] (''.'' # ds @ [n]))))"
      using j1 by simp
    also have "\<dots> = sj (''discord-rpc'' # ds @ [n])"
      by (simp only: j2 np z)
    finally show ?thesis .
  qed
  have R: "read_file ntpath tree (dpath ntpath (ds @ [n])) = read_comps tree (ds @ [n])" for tree
  proof -
    let ?p = "str_join [backslash] (''.'' # ds @ [n])"
    note e = nt_joined [OF _ c1]
    have sp: "split_on backslash ?p = ''.'' # ds @ [n]"
      by (rule split_str_join) (use c1 in simp_all)
    have id: "map (\<lambda>c. if is_sep ntpath c then backslash else c) ?p = ?p"
    proof (rule map_idI)
      fix c assume "c \<in> set ?p"
      with e(5) have "c \<noteq> CHR ''/''" by auto
      then show "(if is_sep ntpath c then backslash else c) = c"
        by (simp add: is_sep_def ntpath_def)
    qed
    have hs: "\<not> is_sep ntpath (hd ?p)"
      using e(2) by (simp add: is_sep_def ntpath_def nt_seps_def)
    have dr: "fst (splitdrive ntpath ?p) = []"
      using e(6) by (simp add: ntpath_def)
    have sepnt: "sep ntpath = backslash" by (simp add: ntpath_def)
    have "read_file ntpath tree ?p = read_comps tree (split_on backslash ?p)"
      unfolding read_file_def sepnt id using hs dr by simp
    also have "\<dots> = read_comps tree (ds @ [n])"
      unfolding sp by simp
    finally show ?thesis unfolding dp .
  qed
  show "join ntpath (dpath ntpath ds) n = dpath ntpath (ds @ [n])
      \<and> arcname_of ntpath (dpath ntpath ds, n) = sj (''discord-rpc'' # ds @ [n])
      \<and> (\<forall>tree. read_file ntpath tree (dpath ntpath (ds @ [n])) = read_comps tree (ds @ [n]))"
    by (intro conjI allI J A R)
qed

lemma path_laws_os_path: "path_laws (os_path pf) pf"
  by (cases pf) (simp_all add: path_laws_nt path_laws_posix)

subsection \<open>The entries of \<open>archive\<close>\<close>

lemma centries_fst: "\<forall>e \<in> set (centries es). fst e \<noteq> []"
  by (induction es rule: centries.induct) (auto simp: case_prod_unfold)

lemma centries_nonempty: "(cs, r) \<in> set (centries es) \<Longrightarrow> cs \<noteq> []"
  using centries_fst [of es] by auto

lemma tree_entries_centries:
  "tree_entries es = map (\<lambda>(cs, r). (sj cs, r)) (centries es)"
proof (induction es rule: centries.induct)
  case 1
  show ?case by simp
next
  case (2 n b y es)
  then show ?case by simp
next
  case (3 n sub es)
  have "map (\<lambda>(p, r). (n @ ''/'' @ p, r)) (map (\<lambda>(cs, r). (sj cs, r)) (centries sub))
      = map (\<lambda>(cs, r). (sj cs, r)) (map (\<lambda>(cs, r). (n # cs, r)) (centries sub))"
    using centries_nonempty [of _ _ sub]
    by (auto simp: str_join_Cons)
  with 3 show ?case by simp
qed

lemma wf_tree_distinct: "wf_tree pf es \<Longrightarrow> distinct (map node_name es)"
  by (induction es) simp_all

lemma find_by_name:
  assumes "distinct (map node_name ES)" and "e \<in> set ES"
  shows "find (\<lambda>x. node_name x = node_name e) ES = Some e"
  using assms by (induction ES) (auto simp: image_iff)

lemma read_comps_file:
  assumes "distinct (map node_name ES)" and "File n b y \<in> set ES" and "wf_name pf n"
  shows "read_comps ES [n] = Inr (b, y)"
  using find_by_name [OF assms(1,2)] assms(3) by (simp add: wf_name_def)

lemma read_comps_dir:
  assumes "distinct (map node_name ES)" and "Dir n sub \<in> set ES" and "wf_name pf n"
  shows "read_comps ES (n # cs) = read_comps sub cs"
  using find_by_name [OF assms(1,2)] assms(3) by (simp add: wf_name_def)

lemma walk_files_File:
  "walk_files (walk P dir (File n b y # rest)) = (dir, n) # walk_files (walk P dir rest)"
  by simp

lemma walk_files_Dir:
  "mset (walk_files (walk P dir (Dir n sub # rest)))
   = mset (walk_files (walk P (join P dir n) sub)) + mset (walk_files (walk P dir rest))"
  by simp

lemma path_lawsD:
  assumes "path_laws P pf" and "\<forall>d \<in> set ds. wf_name pf d" and "wf_name pf n"
  shows "join P (dpath P ds) n = dpath P (ds @ [n])"
    and "arcname_of P (dpath P ds, n) = sj (''discord-rpc'' # ds @ [n])"
    and "read_file P tree (dpath P (ds @ [n])) = read_comps tree (ds @ [n])"
  using assms unfolding path_laws_def by blast+

lemma entries_mset:
  assumes "path_laws P pf"
    and "wf_tree pf rest" and "set rest \<subseteq> set ES" and "distinct (map node_name ES)"
    and "\<forall>d \<in> set ds. wf_name pf d"
    and "\<And>cs. read_comps tree (ds @ cs) = read_comps ES cs"
  shows "mset (map (entry_of P tree) (walk_files (walk P (dpath P ds) rest)))
       = mset (map (\<lambda>(cs, r). (sj (''discord-rpc'' # ds @ cs), Inr r)) (centries rest))"
  using assms(2-)
proof (induction rest arbitrary: ds ES rule: centries.induct)
  case 1
  show ?case by simp
next
  case (2 n b y es)
  have n: "wf_name pf n" using "2.prems"(1) by simp
  have mem: "File n b y \<in> set ES" using "2.prems"(2) by simp
  have rd: "read_comps tree (ds @ [n]) = Inr (b, y)"
    using "2.prems"(5) [of "[n]"] read_comps_file [OF "2.prems"(3) mem n] by simp
  note L = path_lawsD [OF assms(1) "2.prems"(4) n]
  have e: "entry_of P tree (dpath P ds, n) = (sj (''discord-rpc'' # ds @ [n]), Inr (b, y))"
    unfolding entry_of_def fst_conv snd_conv L(1) L(2) L(3) rd by (rule refl)
  have ih: "mset (map (entry_of P tree) (walk_files (walk P (dpath P ds) es)))
       = mset (map (\<lambda>(cs, r). (sj (''discord-rpc'' # ds @ cs), Inr r)) (centries es))"
    by (rule "2.IH" [OF _ _ "2.prems"(3,4,5)]) (use "2.prems"(1,2) in simp_all)
  show ?case
    unfolding walk_files_File using e ih by (simp del: walk.simps)
next
  case (3 n sub es)
  have n: "wf_name pf n" and sub: "wf_tree pf sub" using "3.prems"(1) by simp_all
  have mem: "Dir n sub \<in> set ES" using "3.prems"(2) by simp
  have j: "join P (dpath P ds) n = dpath P (ds @ [n])"
    by (rule path_lawsD(1) [OF assms(1) "3.prems"(4) n])
  have rd: "read_comps tree ((ds @ [n]) @ cs) = read_comps sub cs" for cs
    using "3.prems"(5) [of "n # cs"] read_comps_dir [OF "3.prems"(3) mem n] by simp
  have ih1: "mset (map (entry_of P tree) (walk_files (walk P (dpath P (ds @ [n])) sub)))
       = mset (map (\<lambda>(cs, r). (sj (''discord-rpc'' # (ds @ [n]) @ cs), Inr r)) (centries sub))"
  proof (rule "3.IH"(1) [OF sub _ wf_tree_distinct [OF sub] _ rd])
    show "set sub \<subseteq> set sub" by simp
    show "\<forall>d \<in> set (ds @ [n]). wf_name pf d" using "3.prems"(4) n by simp
  qed
  have ih2: "mset (map (entry_of P tree) (walk_files (walk P (dpath P ds) es)))
       = mset (map (\<lambda>(cs, r). (sj (''discord-rpc'' # ds @ cs), Inr r)) (centries es))"
    by (rule "3.IH"(2) [OF _ _ "3.prems"(3,4,5)]) (use "3.prems"(1,2) in simp_all)
  have "mset (map (entry_of P tree) (walk_files (walk P (dpath P ds) (Dir n sub # es))))
      = image_mset (entry_of P tree) (mset (walk_files (walk P (dpath P ds) (Dir n sub # es))))"
    by (simp only: mset_map)
  also have "\<dots> = mset (map (entry_of P tree) (walk_files (walk P (dpath P (ds @ [n])) sub)))
                 + mset (map (entry_of P tree) (walk_files (walk P (dpath P ds) es)))"
    unfolding walk_files_Dir j by (simp only: mset_map image_mset_union)
  also have "\<dots> = mset (map (\<lambda>(cs, r). (sj (''discord-rpc'' # (ds @ [n]) @ cs), Inr r)) (centries sub))
                 + mset (map (\<lambda>(cs, r). (sj (''discord-rpc'' # ds @ cs), Inr r)) (centries es))"
    by (simp only: ih1 ih2)
  also have "\<dots> = mset (map (\<lambda>(cs, r). (sj (''discord-rpc'' # ds @ cs), Inr r))
                       (centries (Dir n sub # es)))"
    by (simp add: comp_def case_prod_unfold)
  finally show ?case .
qed




lemma archive_entry_centries:
  "map archive_entry (tree_entries es)
   = map (\<lambda>(cs, r). (sj (''discord-rpc'' # cs), fst r)) (centries es)"
proof -
  have "archive_entry (sj cs, r) = (sj (''discord-rpc'' # cs), fst r)"
    if "(cs, r) \<in> set (centries es)" for cs r
    using centries_nonempty [OF that] by (simp add: archive_entry_def str_join_Cons)
  then show ?thesis
    by (auto simp: tree_entries_centries)
qed


lemma adds_run_all_map:
  fixes os :: "'w os"
  assumes "\<And>x. x \<in> set xs \<Longrightarrow> adds os tree (g x) (h x)"
  shows "adds os tree (run_all (map g xs)) (concat (map h xs))"
  using assms
proof (induction xs)
  case Nil
  show ?case by (simp add: adds_def)
next
  case (Cons x xs)
  have x: "adds os tree (g x) (h x)" using Cons.prems by simp
  have xs: "adds os tree (run_all (map g xs)) (concat (map h xs))"
    using Cons by simp
  show ?case
    unfolding adds_def
  proof (intro allI impI)
    fix s :: "'w state"
    assume sc: "os_scandir os (world s) ''.'' = Some tree"
    obtain r s1 where gs: "g x s = (r, s1)" by (cases "g x s")
    from x sc gs have r: "r = None" and w1: "world s1 = world s"
      and z1: "zipfile s1 = (fst (zipfile s), snd (zipfile s) @ h x)"
      unfolding adds_def by (metis fst_conv, metis snd_conv, metis snd_conv)
    from xs w1 sc have "fst (run_all (map g xs) s1) = None"
      "world (snd (run_all (map g xs) s1)) = world s1"
      "zipfile (snd (run_all (map g xs) s1)) = (fst (zipfile s1), snd (zipfile s1) @ concat (map h xs))"
      unfolding adds_def by simp_all
    then show "fst (run_all (map g (x # xs)) s) = None
        \<and> world (snd (run_all (map g (x # xs)) s)) = world s
        \<and> zipfile (snd (run_all (map g (x # xs)) s))
            = (fst (zipfile s), snd (zipfile s) @ concat (map h (x # xs)))"
      using gs r w1 z1 by simp
  qed
qed

lemma adds_archive_file:
  assumes "read_file P tree (join P path fname) = Inr r"
    and "zip_error (arcname_of P (path, fname)) (snd r) = None"
  shows "adds os tree (archive_file P os path fname) [zentry P tree (path, fname)]"
proof -
  obtain b y where r: "r = (b, y)" by (cases r)
  show ?thesis
    using assms unfolding r
    by (simp add: adds_def archive_file_def zip_write_def echo_def zentry_def arcname_of_def
        content_of_def Let_def)
qed

lemma zentries_mset:
  assumes "mset (map (entry_of P tree) L) = mset (map (\<lambda>(cs, r). (A cs, Inr r)) C)"
  shows "mset (map (zentry P tree) L) = mset (map (\<lambda>(cs, r). (A cs, fst r)) C)"
proof -
  let ?g = "\<lambda>ar. (fst ar, content_of (snd ar))"
  have l: "map ?g (map (entry_of P tree) L) = map (zentry P tree) L"
    by (simp add: entry_of_def zentry_def)
  have r: "map ?g (map (\<lambda>(cs, r). (A cs, Inr r)) C) = map (\<lambda>(cs, r). (A cs, fst r)) C"
    by (simp add: content_of_def case_prod_unfold)
  from assms have "image_mset ?g (mset (map (entry_of P tree) L))
      = image_mset ?g (mset (map (\<lambda>(cs, r). (A cs, Inr r)) C))"
    by (rule arg_cong)
  then have "mset (map ?g (map (entry_of P tree) L))
      = mset (map ?g (map (\<lambda>(cs, r). (A cs, Inr r)) C))"
    by (simp only: mset_map)
  then show ?thesis by (simp only: l r)
qed

lemma writes_succeed:
  assumes eq: "mset (map (entry_of P tree) L)
             = mset (map (\<lambda>(cs, r). (sj (''discord-rpc'' # cs), Inr r)) (centries tree))"
    and st: "\<forall>e \<in> set (tree_entries tree). storable e"
    and x: "x \<in> set L"
  shows "\<exists>r. read_file P tree (join P (fst x) (snd x)) = Inr r
            \<and> zip_error (arcname_of P x) (snd r) = None"
proof -
  from x have "entry_of P tree x \<in> set (map (entry_of P tree) L)" by simp
  also have "set (map (entry_of P tree) L)
      = set (map (\<lambda>(cs, r). (sj (''discord-rpc'' # cs), Inr r)) (centries tree))"
    by (rule mset_eq_setD [OF eq])
  finally obtain cs r where m: "(cs, r) \<in> set (centries tree)"
    and e: "entry_of P tree x = (sj (''discord-rpc'' # cs), Inr r)" by auto
  from e have a: "arcname_of P x = sj (''discord-rpc'' # cs)"
    and rd: "read_file P tree (join P (fst x) (snd x)) = Inr r"
    by (simp_all add: entry_of_def)
  from m have "(sj cs, r) \<in> set (tree_entries tree)"
    by (force simp: tree_entries_centries)
  with st have "storable (sj cs, r)" by blast
  then have "zip_error (''discord-rpc/'' @ sj cs) (snd r) = None"
    by (simp add: storable_def)
  moreover have "sj (''discord-rpc'' # cs) = ''discord-rpc/'' @ sj cs"
    using centries_nonempty [OF m] by (simp add: str_join_Cons)
  ultimately have "zip_error (arcname_of P x) (snd r) = None"
    by (simp only: a)
  with rd show ?thesis by blast
qed

lemma adds_archive_loop:
  assumes "\<And>x. x \<in> set (walk_files W) \<Longrightarrow>
             \<exists>r. read_file P tree (join P (fst x) (snd x)) = Inr r
                 \<and> zip_error (arcname_of P x) (snd r) = None"
  shows "adds os tree
           (run_all (map (\<lambda>(path, ds, fnames). run_all (map (archive_file P os path) fnames)) W))
           (map (zentry P tree) (walk_files W))"
proof -
  have flat: "concat (map (\<lambda>(path, ds, fnames). concat (map (\<lambda>f. [zentry P tree (path, f)]) fnames)) W)
      = map (zentry P tree) (walk_files W)"
  proof (induction W)
    case Nil
    show ?case by simp
  next
    case (Cons t W)
    obtain path ds fnames where t: "t = (path, ds, fnames)" by (cases t)
    have "concat (map (\<lambda>f. [zentry P tree (path, f)]) fnames) = map (zentry P tree) (map (Pair path) fnames)"
      by (induction fnames) simp_all
    with Cons show ?case by (simp add: t)
  qed
  have "adds os tree
           (run_all (map (\<lambda>(path, ds, fnames). run_all (map (archive_file P os path) fnames)) W))
           (concat (map (\<lambda>(path, ds, fnames). concat (map (\<lambda>f. [zentry P tree (path, f)]) fnames)) W))"
  proof (rule adds_run_all_map)
    fix t assume tW: "t \<in> set W"
    obtain path ds fnames where t: "t = (path, ds, fnames)" by (cases t)
    have "adds os tree (run_all (map (archive_file P os path) fnames))
            (concat (map (\<lambda>f. [zentry P tree (path, f)]) fnames))"
    proof (rule adds_run_all_map)
      fix f assume "f \<in> set fnames"
      with tW t have "(path, f) \<in> set (walk_files W)"
        by (force simp: walk_files_def)
      from assms [OF this] obtain r where "read_file P tree (join P path f) = Inr r"
        "zip_error (arcname_of P (path, f)) (snd r) = None" by auto
      then show "adds os tree (archive_file P os path f) [zentry P tree (path, f)]"
        by (rule adds_archive_file)
    qed
    then show "adds os tree
        (case t of (path, ds, fnames) \<Rightarrow> run_all (map (archive_file P os path) fnames))
        (case t of (path, ds, fnames) \<Rightarrow> concat (map (\<lambda>f. [zentry P tree (path, f)]) fnames))"
      by (simp add: t)
  qed
  then show ?thesis by (simp only: flat)
qed

lemma archive_loop_tree:
  assumes laws: "path_laws P pf" and wf: "wf_tree pf tree"
    and st: "\<forall>e \<in> set (tree_entries tree). storable e"
  shows "adds os tree
           (run_all (map (\<lambda>(path, ds, fnames). run_all (map (archive_file P os path) fnames))
              (walk P ''.'' tree)))
           (map (zentry P tree) (walk_files (walk P ''.'' tree)))"
    and "mset (map (zentry P tree) (walk_files (walk P ''.'' tree)))
         = mset (map archive_entry (tree_entries tree))"
proof -
  have d0: "dpath P [] = ''.''" by (simp add: dpath_def)
  have e: "mset (map (entry_of P tree) (walk_files (walk P (dpath P []) tree)))
       = mset (map (\<lambda>(cs, r). (sj (''discord-rpc'' # [] @ cs), Inr r)) (centries tree))"
    by (rule entries_mset [OF laws wf _ wf_tree_distinct [OF wf]]) simp_all
  then have e': "mset (map (entry_of P tree) (walk_files (walk P ''.'' tree)))
       = mset (map (\<lambda>(cs, r). (sj (''discord-rpc'' # cs), Inr r)) (centries tree))"
    unfolding d0 by (simp del: walk.simps)
  show "adds os tree
           (run_all (map (\<lambda>(path, ds, fnames). run_all (map (archive_file P os path) fnames))
              (walk P ''.'' tree)))
           (map (zentry P tree) (walk_files (walk P ''.'' tree)))"
    by (rule adds_archive_loop) (rule writes_succeed [OF e' st])
  have "mset (map (zentry P tree) (walk_files (walk P ''.'' tree)))
      = mset (map (\<lambda>(cs, r). (sj (''discord-rpc'' # cs), fst r)) (centries tree))"
    by (rule zentries_mset [OF e'])
  then show "mset (map (zentry P tree) (walk_files (walk P ''.'' tree)))
         = mset (map archive_entry (tree_entries tree))"
    by (simp only: archive_entry_centries)
qed

lemma INSTALL_ROOT_nonempty: "INSTALL_ROOT (os_path pf) cfg \<noteq> []"
proof -
  have px: "INSTALL_ROOT posixpath cfg \<noteq> []"
    by (simp add: INSTALL_ROOT_def join3_def posixpath_def posix_join_def startswith_def)
  have sd: "nt_splitdrive ''install'' = ([], ''install'')"
    by (rule nt_nodrive) (simp_all add: nt_seps_def backslash_def)
  have stp: "snd (nt_join_step acc ''install'') \<noteq> []" for acc
    by (simp add: nt_join_step_def sd Let_def nt_seps_def backslash_def)
  have "nt_joinl a [b, ''install''] \<noteq> []" for a b
    using stp [of "nt_join_step (nt_splitdrive a) b"]
    by (simp add: nt_joinl_def Let_def)
  then have nt: "INSTALL_ROOT ntpath cfg \<noteq> []"
    by (simp add: INSTALL_ROOT_def join3_def ntpath_def)
  show ?thesis by (cases pf) (simp_all add: px nt)
qed

lemma archive_run:
  fixes os :: "'w os" and s :: "'w state"
  assumes laws: "path_laws P pf" and root: "INSTALL_ROOT P cfg \<noteq> []"
    and zc: "os_zip_create os (world s) (archive_file_path P cfg) = Inr w1"
    and chd: "os_chdir os w1 (INSTALL_ROOT P cfg) = Inr w2"
    and scan: "os_scandir os w2 ''.'' = Some tree"
    and wf: "wf_tree pf tree"
    and st: "\<forall>e \<in> set (tree_entries tree). storable e"
  shows "zipfile (snd (archive P os cfg s))
         = (archive_file_path P cfg, map (zentry P tree) (walk_files (walk P ''.'' tree)))"
    and "fst (archive P os cfg s)
         = (case os_chdir os w2 (os_getcwd os w1) of Inl e \<Rightarrow> Some e | Inr w \<Rightarrow> None)"
proof -
  let ?zp = "archive_file_path P cfg"
  let ?root = "INSTALL_ROOT P cfg"
  let ?Z = "map (zentry P tree) (walk_files (walk P ''.'' tree))"
  let ?loop = "\<lambda>W. run_all (map (\<lambda>(path, ds, fnames).
                   run_all (map (archive_file P os path) fnames)) W)"
  let ?body = "\<lambda>s :: 'w state. ?loop (os_walk P os (world s) ''.'') s"
  let ?setz = "\<lambda>s :: 'w state. (None :: error option, s\<lparr>zipfile := (?zp, [])\<rparr>)"
  let ?s1 = "s\<lparr>trace := trace s @ [Echo ''--- Archiving'']\<rparr>"
  let ?s2 = "?s1\<lparr>world := w1\<rparr>"
  let ?s3 = "?s2\<lparr>zipfile := (?zp, [])\<rparr>"
  let ?s4 = "?s3\<lparr>world := w2\<rparr>"
  let ?ret = "lift_os (\<lambda>w. os_chdir os w (os_getcwd os (world ?s3)))"
  have a1: "echo ''--- Archiving'' s = (None, ?s1)"
    by (simp add: echo_def)
  have a2: "lift_os (\<lambda>w. os_zip_create os w ?zp) ?s1 = (None, ?s2)"
    using zc by (simp add: lift_os_def)
  have a3: "?setz ?s2 = (None, ?s3)"
    by simp
  have b1: "lift_os (\<lambda>w. os_chdir os w ?root) ?s3 = (None, ?s4)"
    using chd by (simp add: lift_os_def)
  have walk4: "os_walk P os (world ?s4) ''.'' = walk P ''.'' tree"
    using scan by (simp add: os_walk_def del: walk.simps)
  obtain r5 s5 where L: "?loop (walk P ''.'' tree) ?s4 = (r5, s5)"
    by (cases "?loop (walk P ''.'' tree) ?s4")
  have "adds os tree (?loop (walk P ''.'' tree)) ?Z"
    by (rule archive_loop_tree(1) [OF laws wf st])
  moreover have "os_scandir os (world ?s4) ''.'' = Some tree"
    using scan by simp
  ultimately have "fst (?loop (walk P ''.'' tree) ?s4) = None
      \<and> world (snd (?loop (walk P ''.'' tree) ?s4)) = world ?s4
      \<and> zipfile (snd (?loop (walk P ''.'' tree) ?s4))
          = (fst (zipfile ?s4), snd (zipfile ?s4) @ ?Z)"
    unfolding adds_def by blast
  with L have r5: "r5 = None" and w5: "world s5 = w2" and z5: "zipfile s5 = (?zp, ?Z)"
    by simp_all
  have b2: "?body ?s4 = (None, s5)"
    using L r5 by (simp only: walk4)
  have cdrun: "cd os ?root ?body ?s3 = run_all [?ret] s5"
  proof -
    have "cd os ?root ?body ?s3
        = run_all [lift_os (\<lambda>w. os_chdir os w ?root), ?body, ?ret] ?s3"
      using root by (simp add: cd_def del: run_all.simps)
    also have "\<dots> = run_all [?body, ?ret] ?s4"
      by (rule run_all_Cons_ok) (rule b1)
    also have "\<dots> = run_all [?ret] s5"
      by (rule run_all_Cons_ok) (rule b2)
    finally show ?thesis .
  qed
  have "archive P os cfg s
      = run_all [echo ''--- Archiving'', lift_os (\<lambda>w. os_zip_create os w ?zp), ?setz,
                 cd os ?root ?body] s"
    by (simp add: archive_def archive_file_path_def Let_def del: run_all.simps)
  also have "\<dots> = run_all [lift_os (\<lambda>w. os_zip_create os w ?zp), ?setz, cd os ?root ?body] ?s1"
    by (rule run_all_Cons_ok) (rule a1)
  also have "\<dots> = run_all [?setz, cd os ?root ?body] ?s2"
    by (rule run_all_Cons_ok) (rule a2)
  also have "\<dots> = run_all [cd os ?root ?body] ?s3"
    by (rule run_all_Cons_ok) (rule a3)
  also have "\<dots> = cd os ?root ?body ?s3"
    by (rule run_all_single)
  also have "\<dots> = run_all [?ret] s5"
    by (rule cdrun)
  also have "\<dots> = ?ret s5"
    by (rule run_all_single)
  also have "\<dots> = (case os_chdir os w2 (os_getcwd os w1) of
                       Inl e \<Rightarrow> (Some e, s5) | Inr w \<Rightarrow> (None, s5\<lparr>world := w\<rparr>))"
    by (simp add: lift_os_def w5 split: sum.splits)
  finally have res: "archive P os cfg s
      = (case os_chdir os w2 (os_getcwd os w1) of
           Inl e \<Rightarrow> (Some e, s5) | Inr w \<Rightarrow> (None, s5\<lparr>world := w\<rparr>))" .
  show "zipfile (snd (archive P os cfg s)) = (?zp, ?Z)"
    unfolding res using z5 by (simp split: sum.splits)
  show "fst (archive P os cfg s)
         = (case os_chdir os w2 (os_getcwd os w1) of Inl e \<Rightarrow> Some e | Inr w \<Rightarrow> None)"
    unfolding res by (simp split: sum.splits)
qed


lemma lift_os_total: "(\<And>w. \<exists>w'. f w = Inr w') \<Longrightarrow> fst (lift_os f s) = None"
proof -
  assume h: "\<And>w. \<exists>w'. f w = Inr w'"
  obtain w' where "f (world s) = Inr w'" using h by blast
  then show ?thesis by (simp add: lift_os_def)
qed

lemma mkdir_p_total:
  assumes "reliable os"
  shows "fst (mkdir_p os path s) = None"
proof (cases "os_isdir os (world s) path")
  case True
  then show ?thesis by (simp add: mkdir_p_def)
next
  case False
  have "fst (run_all [echo (''Making '' @ path), lift_os (\<lambda>w. os_makedirs os w path)] s) = None"
  proof (rule run_all_total)
    fix p t
    assume "p \<in> set [echo (''Making '' @ path), lift_os (\<lambda>w. os_makedirs os w path)]"
    then consider "p = echo (''Making '' @ path)" | "p = lift_os (\<lambda>w. os_makedirs os w path)" by auto
    then show "fst (p t) = None"
    proof cases
      case 1
      then show ?thesis by (simp add: echo_def)
    next
      case 2
      have "\<And>w. \<exists>w'. os_makedirs os w path = Inr w'" using assms by (simp add: reliable_def)
      from lift_os_total [of "\<lambda>w. os_makedirs os w path" t, OF this] 2 show ?thesis by simp
    qed
  qed
  with False show ?thesis by (simp add: mkdir_p_def)
qed

lemma cd_total:
  assumes "reliable os" and "\<And>t. fst (body t) = None"
  shows "fst (cd os d body s) = None"
proof (cases "d = []")
  case True
  then show ?thesis by (simp add: cd_def assms(2))
next
  case False
  have ch: "fst (lift_os (\<lambda>w. os_chdir os w q) t) = None" for q t
  proof -
    have "\<And>w. \<exists>w'. os_chdir os w q = Inr w'" using assms(1) by (simp add: reliable_def)
    from lift_os_total [of "\<lambda>w. os_chdir os w q" t, OF this] show ?thesis .
  qed
  have "fst (run_all [lift_os (\<lambda>w. os_chdir os w d), body,
                      lift_os (\<lambda>w. os_chdir os w (os_getcwd os (world s)))] s) = None"
    by (rule run_all_total) (auto simp: ch assms(2))
  with False show ?thesis by (simp add: cd_def)
qed

lemma build_lib_total:
  assumes "reliable os"
  shows "fst (build_lib P os cfg name gen opts jr s) = None"
proof -
  have cc: "\<And>w argv. \<exists>w'. os_check_call os w argv = Inr w'"
    using assms by (simp add: reliable_def)
  define inner where "inner = run_all [echo (''--- Building '' @ name),
                  check_call os (initial_cmake P (SCRIPT_PATH cfg) name gen opts),
                  (if \<not> jr then check_call os debug_build else skip),
                  check_call os release_install]"
  have inner: "fst (inner t) = None" for t
    unfolding inner_def
    by (rule run_all_total) (auto simp: echo_def skip_def check_call_total [OF cc])
  have cdt: "fst (cd os d inner t) = None" for d t
    by (rule cd_total [OF assms]) (rule inner)
  have "build_lib P os cfg name gen opts jr
      = run_all [mkdir_p os (join3 P (SCRIPT_PATH cfg) ''builds'' name),
                 mkdir_p os (join P (INSTALL_ROOT P cfg) name),
                 cd os (join3 P (SCRIPT_PATH cfg) ''builds'' name) inner]"
    unfolding build_lib_def Let_def inner_def by (rule refl)
  moreover have "fst (run_all [mkdir_p os (join3 P (SCRIPT_PATH cfg) ''builds'' name),
                 mkdir_p os (join P (INSTALL_ROOT P cfg) name),
                 cd os (join3 P (SCRIPT_PATH cfg) ''builds'' name) inner] s) = None"
    by (rule run_all_total) (auto simp: mkdir_p_total [OF assms] cdt)
  ultimately show ?thesis by simp
qed

lemma libs_total:
  assumes "reliable os"
  shows "fst (libs P os cfg clean static shared sf jr s) = None"
proof -
  have loop: "fst (run_all (map (\<lambda>v. build_lib P os cfg (build_name v) (generator v) (options v)
                 (just_release v)) M) t) = None" for M t
    by (rule run_all_total) (auto simp: build_lib_total [OF assms])
  show ?thesis
    unfolding libs_def
    by (rule run_all_total) (auto simp: skip_def mkdir_p_total [OF assms] loop)
qed

lemma archive_total:
  assumes rel: "reliable os" and scan: "\<And>w. os_scandir os w ''.'' = Some tree"
    and wf: "wf_tree (PLATFORM cfg) tree" and st: "\<forall>e \<in> set (tree_entries tree). storable e"
  shows "fst (archive (os_path (PLATFORM cfg)) os cfg s) = None"
proof -
  let ?P = "os_path (PLATFORM cfg)"
  obtain w1 where zc: "os_zip_create os (world s) (archive_file_path ?P cfg) = Inr w1"
    using rel unfolding reliable_def by blast
  obtain w2 where chd: "os_chdir os w1 (INSTALL_ROOT ?P cfg) = Inr w2"
    using rel unfolding reliable_def by blast
  obtain w3 where bk: "os_chdir os w2 (os_getcwd os w1) = Inr w3"
    using rel unfolding reliable_def by blast
  from archive_run(2) [OF path_laws_os_path INSTALL_ROOT_nonempty zc chd scan wf st] bk
  show ?thesis by simp
qed

lemma cli_total:
  assumes rel: "reliable os" and scan: "\<And>w. os_scandir os w ''.'' = Some tree"
    and wf: "wf_tree (PLATFORM cfg) tree" and st: "\<forall>e \<in> set (tree_entries tree). storable e"
    and tool: "get_signtool (os_path (PLATFORM cfg)) cfg = Inr tool"
  shows "fst (cli (os_path (PLATFORM cfg)) os cfg None clean s) = None"
proof -
  let ?P = "os_path (PLATFORM cfg)"
  have cc: "\<And>w argv. \<exists>w'. os_check_call os w argv = Inr w'"
    using rel by (simp add: reliable_def)
  have "fst (run_all
             [invoke ''libs'' (libs ?P os cfg clean False False False False),
              (if IS_BUILD_MACHINE (environ cfg) then invoke ''sign'' (sign ?P os cfg) else skip),
              invoke ''archive'' (archive ?P os cfg)] s) = None"
    by (rule run_all_total)
      (auto simp: invoke_def skip_def libs_total [OF rel] sign_total [OF cc tool]
         archive_total [OF rel scan wf st])
  then show ?thesis by (simp add: cli_def del: run_all.simps)
qed

lemma calm_os_reliable: "reliable (calm_os tree)"
  by (simp add: reliable_def calm_os_def)

lemma wf_install_tree: "wf_tree Osx install_tree" "wf_tree Linux install_tree"
  by (simp_all add: install_tree_def wf_name_def)


lemma utf8_ascii: "\<forall>c \<in> set s. byte_in 0 127 c \<Longrightarrow> utf8 s"
  by (induction s) simp_all

lemma storable_install_tree: "\<forall>e \<in> set (tree_entries install_tree). storable e"
  by (simp add: install_tree_def storable_def zip_error_def utf8_ascii byte_in_def)


lemma entries_install_tree:
  "map archive_entry (tree_entries install_tree)
   = [(''discord-rpc/libdiscord-rpc.dylib'', ''AB''),
      (''discord-rpc/README.txt'', ''hello''),
      (''discord-rpc/osx-dynamic/lib/libdiscord-rpc.dylib'', ''CD''),
      (''discord-rpc/osx-dynamic/lib/.dylib'', []),
      (''discord-rpc/osx-dynamic/lib/x.DYLIB'', []),
      (''discord-rpc/osx-dynamic/include/discord-rpc.h'', ''h'')]"
  by (simp add: install_tree_def archive_entry_def)






lemma sign_calls_ci:
  "sign_calls posixpath (calm_os install_tree) ci_cfg ()
   = [codesign @ [''/repo/builds/install/libdiscord-rpc.dylib''],
      codesign @ [''/repo/builds/install/osx-dynamic/lib/libdiscord-rpc.dylib'']]"
  by code_simp

lemma bm_cfgs: "IS_BUILD_MACHINE (environ ci_cfg)" "\<not> IS_BUILD_MACHINE (environ linux_cfg)"
  by (simp_all add: IS_BUILD_MACHINE_def environ_get_def ci_cfg_def linux_cfg_def)

lemma cli_steps_ci:
  "cli_steps posixpath (calm_os install_tree) ci_cfg False start
   = [Call [''cmake'', ''/repo'', ''-DCMAKE_INSTALL_PREFIX=../install/osx-static'',
            ''-DCLANG_FORMAT_SUFFIX=none''],
      Call release_install,
      Call [''cmake'', ''/repo'', ''-DCMAKE_INSTALL_PREFIX=../install/osx-dynamic'',
            ''-DBUILD_SHARED_LIBS=ON'', ''-DUSE_STATIC_CRT=ON'', ''-DCLANG_FORMAT_SUFFIX=none''],
      Call release_install,
      Invoke ''sign'',
      Call (codesign @ [''/repo/builds/install/libdiscord-rpc.dylib'']),
      Call (codesign @ [''/repo/builds/install/osx-dynamic/lib/libdiscord-rpc.dylib'']),
      Invoke ''archive'']"
proof -
  have "concat (map (variant_calls posixpath ci_cfg) (libs_matrix Osx True True True False False))
     = [[''cmake'', ''/repo'', ''-DCMAKE_INSTALL_PREFIX=../install/osx-static'',
            ''-DCLANG_FORMAT_SUFFIX=none''],
        release_install,
        [''cmake'', ''/repo'', ''-DCMAKE_INSTALL_PREFIX=../install/osx-dynamic'',
            ''-DBUILD_SHARED_LIBS=ON'', ''-DUSE_STATIC_CRT=ON'', ''-DCLANG_FORMAT_SUFFIX=none''],
        release_install]"
    by (simp add: matrix_defs variant_calls_def initial_cmake_def join_def join3_def posixpath_def
        posix_join_def startswith_def render_option_def ci_cfg_def)
  moreover have "PLATFORM ci_cfg = Osx" by (simp add: ci_cfg_def)
  ultimately show ?thesis
    by (simp add: cli_steps_def bm_cfgs sign_calls_ci)
qed

lemma cli_steps_linux:
  "cli_steps posixpath (calm_os install_tree) linux_cfg False start
   = [Call [''cmake'', ''/repo'', ''-DCMAKE_INSTALL_PREFIX=../install/linux-static''],
      Call debug_build,
      Call release_install,
      Call [''cmake'', ''/repo'', ''-DCMAKE_INSTALL_PREFIX=../install/linux-dynamic'',
            ''-DBUILD_SHARED_LIBS=ON'', ''-DUSE_STATIC_CRT=ON''],
      Call debug_build,
      Call release_install,
      Invoke ''archive'']"
proof -
  have "concat (map (variant_calls posixpath linux_cfg) (libs_matrix Linux False True True False False))
     = [[''cmake'', ''/repo'', ''-DCMAKE_INSTALL_PREFIX=../install/linux-static''],
        debug_build,
        release_install,
        [''cmake'', ''/repo'', ''-DCMAKE_INSTALL_PREFIX=../install/linux-dynamic'',
            ''-DBUILD_SHARED_LIBS=ON'', ''-DUSE_STATIC_CRT=ON''],
        debug_build,
        release_install]"
    by (simp add: matrix_defs variant_calls_def initial_cmake_def join_def join3_def posixpath_def
        posix_join_def startswith_def render_option_def linux_cfg_def)
  moreover have "PLATFORM linux_cfg = Linux" by (simp add: linux_cfg_def)
  ultimately show ?thesis
    by (simp add: cli_steps_def bm_cfgs)
qed


lemma archive_calm:
  assumes wf: "wf_tree (PLATFORM cfg) tree" and st: "\<forall>e \<in> set (tree_entries tree). storable e"
  shows "mset (snd (zipfile (snd (archive (os_path (PLATFORM cfg)) (calm_os tree) cfg s))))
         = mset (map archive_entry (tree_entries tree))"
proof -
  let ?P = "os_path (PLATFORM cfg)"
  have zc: "os_zip_create (calm_os tree) (world s) (archive_file_path ?P cfg) = Inr ()"
    by (simp add: calm_os_def)
  have chd: "os_chdir (calm_os tree) () (INSTALL_ROOT ?P cfg) = Inr ()"
    by (simp add: calm_os_def)
  have scan: "os_scandir (calm_os tree) () ''.'' = Some tree"
    by (simp add: calm_os_def)
  from archive_run(1) [OF path_laws_os_path INSTALL_ROOT_nonempty zc chd scan wf st]
       archive_loop_tree(2) [OF path_laws_os_path wf st]
  show ?thesis by simp
qed

theorem cli_stage_order_witness:
  "fst (cli posixpath (calm_os install_tree) ci_cfg None False start) = None
   \<and> invoked (trace (snd (cli posixpath (calm_os install_tree) ci_cfg None False start)))
       = [''libs'', ''sign'', ''archive'']
   \<and> steps (trace (snd (cli posixpath (calm_os install_tree) ci_cfg None False start)))
       = [Invoke ''libs'',
          Call [''cmake'', ''/repo'', ''-DCMAKE_INSTALL_PREFIX=../install/osx-static'',
                ''-DCLANG_FORMAT_SUFFIX=none''],
          Call release_install,
          Call [''cmake'', ''/repo'', ''-DCMAKE_INSTALL_PREFIX=../install/osx-dynamic'',
                ''-DBUILD_SHARED_LIBS=ON'', ''-DUSE_STATIC_CRT=ON'', ''-DCLANG_FORMAT_SUFFIX=none''],
          Call release_install,
          Invoke ''sign'',
          Call (codesign @ [''/repo/builds/install/libdiscord-rpc.dylib'']),
          Call (codesign @ [''/repo/builds/install/osx-dynamic/lib/libdiscord-rpc.dylib'']),
          Invoke ''archive'']
   \<and> mset (snd (zipfile (snd (cli posixpath (calm_os install_tree) ci_cfg None False start))))
       = mset [(''discord-rpc/libdiscord-rpc.dylib'', ''AB''),
               (''discord-rpc/README.txt'', ''hello''),
               (''discord-rpc/osx-dynamic/lib/libdiscord-rpc.dylib'', ''CD''),
               (''discord-rpc/osx-dynamic/lib/.dylib'', []),
               (''discord-rpc/osx-dynamic/lib/x.DYLIB'', []),
               (''discord-rpc/osx-dynamic/include/discord-rpc.h'', ''h'')]
   \<and> fst (cli posixpath (calm_os install_tree) linux_cfg None False start) = None
   \<and> invoked (trace (snd (cli posixpath (calm_os install_tree) linux_cfg None False start)))
       = [''libs'', ''archive'']
   \<and> steps (trace (snd (cli posixpath (calm_os install_tree) linux_cfg None False start)))
       = [Invoke ''libs'',
          Call [''cmake'', ''/repo'', ''-DCMAKE_INSTALL_PREFIX=../install/linux-static''],
          Call debug_build,
          Call release_install,
          Call [''cmake'', ''/repo'', ''-DCMAKE_INSTALL_PREFIX=../install/linux-dynamic'',
                ''-DBUILD_SHARED_LIBS=ON'', ''-DUSE_STATIC_CRT=ON''],
          Call debug_build,
          Call release_install,
          Invoke ''archive'']"
proof -
  let ?os = "calm_os install_tree"
  let ?c1 = "cli posixpath ?os ci_cfg None False start"
  let ?c2 = "cli posixpath ?os linux_cfg None False start"
  have st: "invoked (trace start) = []" "steps (trace start) = []"
    by (simp_all add: start_def invoked_def steps_def)
  have pf: "PLATFORM ci_cfg = Osx" "PLATFORM linux_cfg = Linux"
    by (simp_all add: ci_cfg_def linux_cfg_def)
  have scan: "\<And>w. os_scandir ?os w ''.'' = Some install_tree"
    by (simp add: calm_os_def)
  have t1: "get_signtool (os_path (PLATFORM ci_cfg)) ci_cfg = Inr (Some ''/usr/bin/codesign'')"
    by (simp add: get_signtool_def ci_cfg_def)
  have t2: "get_signtool (os_path (PLATFORM linux_cfg)) linux_cfg = Inr None"
    by (simp add: get_signtool_def linux_cfg_def)
  have w1: "wf_tree (PLATFORM ci_cfg) install_tree" "wf_tree (PLATFORM linux_cfg) install_tree"
    unfolding pf by (rule wf_install_tree)+
  have "fst (cli (os_path (PLATFORM ci_cfg)) ?os ci_cfg None False start) = None"
    by (rule cli_total [OF calm_os_reliable scan w1(1) storable_install_tree t1])
  then have ok1: "fst ?c1 = None" by (simp add: pf)
  have "fst (cli (os_path (PLATFORM linux_cfg)) ?os linux_cfg None False start) = None"
    by (rule cli_total [OF calm_os_reliable scan w1(2) storable_install_tree t2])
  then have ok2: "fst ?c2 = None" by (simp add: pf)
  note th1 = cli_stage_order [of posixpath ?os ci_cfg False start]
  note th2 = cli_stage_order [of posixpath ?os linux_cfg False start]
  from conjunct1 [OF conjunct1 [OF th1]] ok1 bm_cfgs(1)
  have a: "invoked (trace (snd ?c1)) = [''libs'', ''sign'', ''archive'']"
    by (auto simp: st)
  from conjunct1 [OF conjunct1 [OF th2]] ok2 bm_cfgs(2)
  have b: "invoked (trace (snd ?c2)) = [''libs'', ''archive'']"
    by (auto simp: st)
  from conjunct1 [OF conjunct2 [OF th1]] ok1
  have c: "steps (trace (snd ?c1)) = Invoke ''libs'' # cli_steps posixpath ?os ci_cfg False start"
    by (auto simp: st)
  from conjunct1 [OF conjunct2 [OF th2]] ok2
  have d: "steps (trace (snd ?c2)) = Invoke ''libs'' # cli_steps posixpath ?os linux_cfg False start"
    by (auto simp: st)
  have "?c1 = invoke ''archive'' (archive posixpath ?os ci_cfg)
                (after_sign posixpath ?os ci_cfg False start)"
    using conjunct2 [OF conjunct2 [OF th1]] ok1 by (auto split: if_splits)
  then have "snd (zipfile (snd ?c1))
      = snd (zipfile (snd (archive (os_path (PLATFORM ci_cfg)) ?os ci_cfg
          ((after_sign posixpath ?os ci_cfg False start)
             \<lparr>trace := trace (after_sign posixpath ?os ci_cfg False start) @ [Invoke ''archive'']\<rparr>))))"
    by (simp add: invoke_def pf)
  then have z: "mset (snd (zipfile (snd ?c1))) = mset (map archive_entry (tree_entries install_tree))"
    by (simp only: archive_calm [OF w1(1) storable_install_tree])
  show ?thesis
    unfolding c d z cli_steps_ci cli_steps_linux entries_install_tree
    by (intro conjI ok1 a ok2 b refl)
qed

end
